theory Spec2Isabelle
  imports Main
begin

section \<open>The ingestion pipeline of \<open>ReceiverService\<close>\<close>

text \<open>
  A shallow embedding of \<^verbatim>\<open>apps/api/src/receiver/receiver.service.ts\<close> and of the
  part of \<^verbatim>\<open>AgentsService.autoAnnotate\<close> that decides whether it throws.

  The service talks to four collaborators: the cursor store (Redis), the persistent
  store (Supabase), the mailbox (Gmail) and the bus (Service Bus). Every call that
  crosses that boundary, and every warning or error written to the logger, is appended
  to a chronological \<open>trace\<close>; the content of the cursor store is kept as a map.
  What a collaborator answers is not fixed: each answer is a field of the record
  \<open>env\<close>, a function of the trace so far and of the call's arguments, so a theorem
  quantified over \<open>env\<close> holds for every behaviour of the collaborators, failures
  included. Debug-level logging and the metadata object passed along with a log line
  are left out.
\<close>

subsection \<open>JavaScript values\<close>

text \<open>A value that is a string, \<^verbatim>\<open>null\<close> or \<^verbatim>\<open>undefined\<close>: page tokens and identifiers.\<close>

datatype jsval = Undefined | Null | Str string

fun truthy :: "jsval \<Rightarrow> bool" where
  "truthy Undefined = False"
| "truthy Null = False"
| "truthy (Str s) = (s \<noteq> [])"

text \<open>\<^verbatim>\<open>String(v)\<close>.\<close>

fun js_String :: "jsval \<Rightarrow> string" where
  "js_String Undefined = ''undefined''"
| "js_String Null = ''null''"
| "js_String (Str s) = s"

text \<open>
  A thrown value: an \<^verbatim>\<open>Error\<close> object with its message; \<^verbatim>\<open>null\<close>; \<^verbatim>\<open>undefined\<close>; or
  any other value \<open>v\<close>, kept as its rendering \<^verbatim>\<open>String(v)\<close> and as the rendering of its
  \<^verbatim>\<open>message\<close> property inside a template string (\<open>undefined\<close> when it has none).
\<close>

datatype thrown = ErrorObj string | ThrownNull | ThrownUndefined | ThrownValue string string

text \<open>\<^verbatim>\<open>error instanceof Error ? error.message : String(error)\<close>\<close>

fun error_text :: "thrown \<Rightarrow> string" where
  "error_text (ErrorObj m) = m"
| "error_text ThrownNull = ''null''"
| "error_text ThrownUndefined = ''undefined''"
| "error_text (ThrownValue s m) = s"

text \<open>\<^verbatim>\<open>error instanceof Error ? error : new Error(String(error))\<close>\<close>

fun as_Error :: "thrown \<Rightarrow> thrown" where
  "as_Error (ErrorObj m) = ErrorObj m"
| "as_Error ThrownNull = ErrorObj ''null''"
| "as_Error ThrownUndefined = ErrorObj ''undefined''"
| "as_Error (ThrownValue s m) = ErrorObj s"

text \<open>
  \<^verbatim>\<open>error.message\<close> inside a template string, for a caught value that need not be an
  \<^verbatim>\<open>Error\<close>: reading a property of \<^verbatim>\<open>null\<close> or \<^verbatim>\<open>undefined\<close> throws a \<^verbatim>\<open>TypeError\<close>
  (its message as Node words it).
\<close>

definition quote :: char where
  "quote = CHR 0x27"

fun message_of :: "thrown \<Rightarrow> thrown + string" where
  "message_of (ErrorObj m) = Inr m"
| "message_of ThrownNull =
     Inl (ErrorObj (''Cannot read properties of null (reading '' @ [quote] @ ''message'' @ [quote] @ '')''))"
| "message_of ThrownUndefined =
     Inl (ErrorObj (''Cannot read properties of undefined (reading '' @ [quote] @ ''message'' @ [quote] @ '')''))"
| "message_of (ThrownValue s m) = Inr m"

text \<open>Decimal rendering of a number inside a template string.\<close>

definition digit :: "nat \<Rightarrow> char" where
  "digit n = ''0123456789'' ! (n mod 10)"

fun decimal :: "nat \<Rightarrow> string" where
  "decimal n = (if n < 10 then [digit n] else decimal (n div 10) @ [digit n])"

declare decimal.simps [simp del]

subsection \<open>Data\<close>

text \<open>The bus message body (\<^verbatim>\<open>isNewUser\<close> is never read by the receiver).\<close>

record body =
  userId :: string
  accessToken :: string

text \<open>
  A received bus message. \<open>messageId\<close> is the identifier's \<^verbatim>\<open>toString()\<close> when the
  message carries one; \<open>deliveryCount\<close> may be absent.
\<close>

record message =
  messageId :: "string option"
  deliveryCount :: "nat option"
  body :: body

text \<open>\<^verbatim>\<open>Schema$Message\<close> and \<^verbatim>\<open>Schema$Thread\<close> of the mailbox API, the fields that are read.\<close>

record gmail_message =
  message_id :: jsval

record gmail_thread =
  thread_id :: jsval
  messages :: "gmail_message list option"

text \<open>\<^verbatim>\<open>response.data\<close> of \<^verbatim>\<open>users.threads.list\<close>.\<close>

record list_response =
  threads :: "gmail_thread list option"
  nextPageToken :: jsval

text \<open>What \<^verbatim>\<open>fetchThreadBatch\<close> returns.\<close>

record thread_page =
  items :: "gmail_thread list"
  next_token :: jsval

text \<open>A row of \<^verbatim>\<open>annotations\<close> with its recipients, as far as it is passed on.\<close>

record annotation =
  created_at :: string
  recipients :: string

text \<open>The \<^verbatim>\<open>{ data, error }\<close> pair a Supabase query resolves to.\<close>

record 'a query_result =
  data :: "'a list option"
  error :: "thrown option"

text \<open>A mailbox client is determined by the access token it was created with.\<close>

type_synonym gmail = string

datatype event =
    RedisGet string
  | RedisDel string
  | RedisSet string string nat
  | SelectThreadEmbeddings string
  | ThreadsList gmail jsval
  | ThreadsGet gmail string
  | MessagesGet gmail jsval
  | AutoAnnotate gmail "string list" string
  | AnnotateThread gmail string string
  | SelectAnnotations string string
  | EmbeddingsProcessThread string string string string
  | CompleteMessage message
  | AbandonMessage message
  | DeadLetterMessage message string string
  | LogWarn string
  | LogError string

text \<open>
  The collaborators. \<open>Some e\<close> or \<open>Inl e\<close> is a call that rejects with \<open>e\<close>.
  \<open>annotate_thread\<close> stands for the body of the per-thread \<^verbatim>\<open>try\<close> block of
  \<^verbatim>\<open>autoAnnotate\<close>, \<open>annotations_lookup\<close> for the query that precedes its loop.
\<close>

record env =
  redis_command :: "event list \<Rightarrow> thrown option"
  thread_embeddings_select :: "event list \<Rightarrow> string \<Rightarrow> thrown + string query_result"
  threads_list :: "event list \<Rightarrow> gmail \<Rightarrow> jsval \<Rightarrow> thrown + list_response"
  threads_get :: "event list \<Rightarrow> gmail \<Rightarrow> string \<Rightarrow> thrown + gmail_thread"
  messages_get :: "event list \<Rightarrow> gmail \<Rightarrow> jsval \<Rightarrow> thrown option"
  annotations_lookup :: "event list \<Rightarrow> string \<Rightarrow> thrown option"
  annotate_thread :: "event list \<Rightarrow> gmail \<Rightarrow> string \<Rightarrow> string \<Rightarrow> thrown option"
  annotations_select :: "event list \<Rightarrow> string \<Rightarrow> string \<Rightarrow> thrown + annotation query_result"
  embeddings_processThread :: "event list \<Rightarrow> string \<Rightarrow> string \<Rightarrow> thrown option"
  completeMessage :: "event list \<Rightarrow> message \<Rightarrow> thrown option"
  abandonMessage :: "event list \<Rightarrow> message \<Rightarrow> thrown option"
  deadLetterMessage :: "event list \<Rightarrow> message \<Rightarrow> thrown option"

text \<open>
  The world outside the service: the cursor store (key to value and expiry in seconds)
  and the trace.
\<close>

record world =
  redis :: "string \<rightharpoonup> string \<times> nat"
  trace :: "event list"

text \<open>The service: its two private fields of the admission gate, and the world.\<close>

record service =
  activeProcessingCount :: int
  processingMessages :: "string set"
  outside :: world

definition BATCH_SIZE :: nat where
  "BATCH_SIZE = 100"

definition MAX_THREADS_PER_USER :: int where
  "MAX_THREADS_PER_USER = 500"

definition MAX_CONCURRENT_MESSAGES :: int where
  "MAX_CONCURRENT_MESSAGES = 10"

subsection \<open>Primitive effects\<close>

definition emit :: "event \<Rightarrow> world \<Rightarrow> world" where
  "emit ev w = w\<lparr>trace := trace w @ [ev]\<rparr>"

definition redis_get :: "env \<Rightarrow> string \<Rightarrow> world \<Rightarrow> world \<times> (thrown + jsval)" where
  "redis_get en key w =
     (case redis_command en (trace w) of
        Some e \<Rightarrow> (emit (RedisGet key) w, Inl e)
      | None \<Rightarrow> (emit (RedisGet key) w,
                 Inr (case redis w key of None \<Rightarrow> Null | Some (v, ttl) \<Rightarrow> Str v)))"

definition redis_del :: "env \<Rightarrow> string \<Rightarrow> world \<Rightarrow> world \<times> (thrown + unit)" where
  "redis_del en key w =
     (case redis_command en (trace w) of
        Some e \<Rightarrow> (emit (RedisDel key) w, Inl e)
      | None \<Rightarrow> (emit (RedisDel key) (w\<lparr>redis := (redis w)(key := None)\<rparr>), Inr ()))"

definition redis_set :: "env \<Rightarrow> string \<Rightarrow> string \<Rightarrow> nat \<Rightarrow> world \<Rightarrow> world \<times> (thrown + unit)" where
  "redis_set en key v ex w =
     (case redis_command en (trace w) of
        Some e \<Rightarrow> (emit (RedisSet key v ex) w, Inl e)
      | None \<Rightarrow> (emit (RedisSet key v ex) (w\<lparr>redis := (redis w)(key \<mapsto> (v, ex))\<rparr>), Inr ()))"

subsection \<open>Thread discovery\<close>

text \<open>\<^verbatim>\<open>getExistingThreads\<close>\<close>

definition getExistingThreads :: "env \<Rightarrow> string \<Rightarrow> world \<Rightarrow> world \<times> (thrown + string list)" where
  "getExistingThreads en uid w =
     (let w1 = emit (SelectThreadEmbeddings uid) w in
      case thread_embeddings_select en (trace w) uid of
        Inl e \<Rightarrow> (w1, Inl e)
      | Inr r \<Rightarrow>
          (case error r of
             Some e \<Rightarrow> (w1, Inl (ErrorObj (''Failed to fetch existing threads: '' @ error_text e)))
           | None \<Rightarrow> (w1, Inr (case data r of None \<Rightarrow> [] | Some rows \<Rightarrow> rows))))"

text \<open>\<^verbatim>\<open>fetchThreadBatch\<close>\<close>

definition fetchThreadBatch :: "env \<Rightarrow> gmail \<Rightarrow> jsval \<Rightarrow> world \<Rightarrow> world \<times> (thrown + thread_page)" where
  "fetchThreadBatch en g pageToken w =
     (let w1 = emit (ThreadsList g pageToken) w in
      case threads_list en (trace w) g pageToken of
        Inl e \<Rightarrow> (emit (LogError (''Error fetching thread batch: '' @ error_text e)) w1, Inl e)
      | Inr r \<Rightarrow>
          (w1, Inr \<lparr>items = (case threads r of None \<Rightarrow> [] | Some ts \<Rightarrow> ts),
                    next_token = nextPageToken r\<rparr>))"

text \<open>
  \<^verbatim>\<open>Set.prototype.add\<close> on a set kept in insertion order, which is the order
  \<^verbatim>\<open>Array.from\<close> lists it in.
\<close>

definition set_add :: "string \<Rightarrow> string list \<Rightarrow> string list" where
  "set_add x xs = (if x \<in> set xs then xs else xs @ [x])"

text \<open>The inner \<^verbatim>\<open>for\<close> loop of \<^verbatim>\<open>fetchNewThreads\<close> over one page.\<close>

fun filter_page :: "int \<Rightarrow> string list \<Rightarrow> gmail_thread list \<Rightarrow> string list \<Rightarrow> string list" where
  "filter_page remaining existing [] threadIds = threadIds"
| "filter_page remaining existing (t # ts) threadIds =
     (if int (length threadIds) \<ge> remaining then threadIds
      else filter_page remaining existing ts
             (case thread_id t of
                Str s \<Rightarrow> if s \<noteq> [] \<and> s \<notin> set existing then set_add s threadIds else threadIds
              | _ \<Rightarrow> threadIds))"

text \<open>
  The \<^verbatim>\<open>while\<close> loop of \<^verbatim>\<open>fetchNewThreads\<close>. Nothing bounds the number of pages a
  mailbox may serve, so the loop runs on fuel: one unit per page fetched, \<open>None\<close> when
  the fuel is spent and the loop would go on. It yields the page token and the
  identifiers it holds on exit, or the error of the page fetch that failed.
\<close>

fun discover :: "env \<Rightarrow> gmail \<Rightarrow> int \<Rightarrow> string list \<Rightarrow> nat \<Rightarrow> jsval \<Rightarrow> string list \<Rightarrow> world
    \<Rightarrow> (world \<times> (thrown + jsval \<times> string list)) option" where
  "discover en g remaining existing 0 pageToken threadIds w =
     (if pageToken \<noteq> Undefined \<and> int (length threadIds) < remaining then None
      else Some (w, Inr (pageToken, threadIds)))"
| "discover en g remaining existing (Suc fuel) pageToken threadIds w =
     (if pageToken \<noteq> Undefined \<and> int (length threadIds) < remaining then
        (case fetchThreadBatch en g pageToken w of
           (w1, Inl e) \<Rightarrow> Some (w1, Inl e)
         | (w1, Inr page) \<Rightarrow>
             discover en g remaining existing fuel (next_token page)
               (filter_page remaining existing (items page) threadIds) w1)
      else Some (w, Inr (pageToken, threadIds)))"

text \<open>The update of the pagination state after the loop.\<close>

definition update_pagination :: "env \<Rightarrow> string \<Rightarrow> int \<Rightarrow> jsval \<Rightarrow> string list \<Rightarrow> world
    \<Rightarrow> world \<times> (thrown + unit)" where
  "update_pagination en paginationKey remaining pageToken threadIds w =
     (if \<not> truthy pageToken \<or> int (length threadIds) \<ge> remaining
      then redis_del en paginationKey w
      else redis_set en paginationKey (js_String pageToken) (60 * 60) w)"

text \<open>\<^verbatim>\<open>fetchNewThreads\<close>\<close>

definition fetchNewThreads :: "env \<Rightarrow> nat \<Rightarrow> gmail \<Rightarrow> string list \<Rightarrow> string \<Rightarrow> string \<Rightarrow> world
    \<Rightarrow> (world \<times> (thrown + string list)) option" where
  "fetchNewThreads en fuel g existingThreadIds uid paginationKey w =
     (case redis_get en paginationKey w of
        (w1, Inl e) \<Rightarrow> Some (w1, Inl e)
      | (w1, Inr pageToken) \<Rightarrow>
          (let remainingThreadsNeeded = MAX_THREADS_PER_USER - int (length existingThreadIds) in
           if remainingThreadsNeeded \<le> 0 then Some (w1, Inr [])
           else
             (case discover en g remainingThreadsNeeded existingThreadIds fuel pageToken [] w1 of
                None \<Rightarrow> None
              | Some (w2, Inl e) \<Rightarrow>
                  Some (emit (LogError (''Error fetching threads: '' @ error_text e)) w2, Inl e)
              | Some (w2, Inr (tok, threadIds)) \<Rightarrow>
                  (case update_pagination en paginationKey remainingThreadsNeeded tok threadIds w2 of
                     (w3, Inl e) \<Rightarrow>
                       Some (emit (LogError (''Error fetching threads: '' @ error_text e)) w3, Inl e)
                   | (w3, Inr u) \<Rightarrow> Some (w3, Inr threadIds)))))"

subsection \<open>Batch fetching and dispatch\<close>

text \<open>
  A \<^verbatim>\<open>Promise.all\<close> over a mapped array runs every element up to its first
  \<^verbatim>\<open>await\<close> before any answer is looked at: all the requests are sent, in array
  order, whether or not one of them fails later. What follows an answer runs when the
  answer arrives; the answers are taken in array order, and when several elements
  reject, the first in array order is taken as the rejection of the whole.
\<close>

text \<open>The requests of the per-thread fetch of \<^verbatim>\<open>processThreads\<close>, each with its answer.\<close>

fun request_threads :: "env \<Rightarrow> gmail \<Rightarrow> string list \<Rightarrow> world
    \<Rightarrow> world \<times> (string \<times> (thrown + gmail_thread)) list" where
  "request_threads en g [] w = (w, [])"
| "request_threads en g (threadId # rest) w =
     (let answer = threads_get en (trace w) g threadId;
          (w1, answers) = request_threads en g rest (emit (ThreadsGet g threadId) w)
      in (w1, (threadId, answer) # answers))"

text \<open>What follows each answer: the data, or the \<^verbatim>\<open>catch\<close> that logs and yields \<^verbatim>\<open>null\<close>.\<close>

fun settle_threads :: "(string \<times> (thrown + gmail_thread)) list \<Rightarrow> world
    \<Rightarrow> world \<times> gmail_thread option list" where
  "settle_threads [] w = (w, [])"
| "settle_threads ((threadId, answer) # rest) w =
     (case answer of
        Inl e \<Rightarrow>
          (let (w1, rs) = settle_threads rest
                            (emit (LogError (''Error fetching thread '' @ threadId @ '': '' @ error_text e)) w)
           in (w1, None # rs))
      | Inr d \<Rightarrow>
          (let (w1, rs) = settle_threads rest w in (w1, Some d # rs)))"

text \<open>The per-thread fetch of \<^verbatim>\<open>processThreads\<close>.\<close>

definition fetch_threads :: "env \<Rightarrow> gmail \<Rightarrow> string list \<Rightarrow> world \<Rightarrow> world \<times> gmail_thread option list" where
  "fetch_threads en g threadIds w =
     (case request_threads en g threadIds w of (w1, answers) \<Rightarrow> settle_threads answers w1)"

text \<open>Dropping the failed fetches and collecting the message identifiers.\<close>

definition message_ids :: "gmail_thread option list \<Rightarrow> jsval list" where
  "message_ids threadsData =
     concat (map (\<lambda>d. case d of
                         None \<Rightarrow> []
                       | Some thread \<Rightarrow>
                           filter (\<lambda>i. i \<noteq> Undefined)
                             (map message_id (case messages thread of None \<Rightarrow> [] | Some ms \<Rightarrow> ms)))
                 threadsData)"

text \<open>The requests of \<^verbatim>\<open>batchGetMessages\<close> and the rejection of their \<^verbatim>\<open>Promise.all\<close>, if any.\<close>

fun get_messages :: "env \<Rightarrow> gmail \<Rightarrow> jsval list \<Rightarrow> world \<Rightarrow> world \<times> thrown option" where
  "get_messages en g [] w = (w, None)"
| "get_messages en g (i # rest) w =
     (let w1 = emit (MessagesGet g i) w;
          r = messages_get en (trace w) g i;
          (w2, rs) = get_messages en g rest w1
      in (w2, case r of Some e \<Rightarrow> Some e | None \<Rightarrow> rs))"

text \<open>\<^verbatim>\<open>batchGetMessages\<close>; the message bodies it returns are not used by its caller.\<close>

definition batchGetMessages :: "env \<Rightarrow> gmail \<Rightarrow> jsval list \<Rightarrow> world \<Rightarrow> world \<times> (thrown + unit)" where
  "batchGetMessages en g messageIds w =
     (case get_messages en g messageIds w of
        (w1, Some e) \<Rightarrow> (emit (LogError (''Error batch getting messages: '' @ error_text e)) w1, Inl e)
      | (w1, None) \<Rightarrow> (w1, Inr ()))"

text \<open>The loop of \<^verbatim>\<open>AgentsService.autoAnnotate\<close> over the threads.\<close>

fun annotate_each :: "env \<Rightarrow> gmail \<Rightarrow> string list \<Rightarrow> string \<Rightarrow> world \<Rightarrow> world" where
  "annotate_each en g [] uid w = w"
| "annotate_each en g (threadId # rest) uid w =
     (let w1 = emit (AnnotateThread g threadId uid) w
      in annotate_each en g rest uid
           (case annotate_thread en (trace w) g threadId uid of
              Some e \<Rightarrow> emit (LogError (''Error fetching thread '' @ threadId @ '': '' @ error_text e)) w1
            | None \<Rightarrow> w1))"

text \<open>\<^verbatim>\<open>AgentsService.autoAnnotate\<close>\<close>

definition autoAnnotate :: "env \<Rightarrow> gmail \<Rightarrow> string list \<Rightarrow> string \<Rightarrow> world \<Rightarrow> world \<times> (thrown + unit)" where
  "autoAnnotate en g threadIds uid w =
     (let w1 = emit (AutoAnnotate g threadIds uid) w in
      case annotations_lookup en (trace w1) uid of
        Some e \<Rightarrow> (emit (LogError (''Failed to process threads: '' @ error_text e)) w1, Inl e)
      | None \<Rightarrow> (annotate_each en g threadIds uid w1, Inr ()))"

text \<open>
  \<^verbatim>\<open>processThread\<close> of the receiver from the answer of its query on: the call of the
  embedding collaborator when a row was found, and the \<^verbatim>\<open>catch\<close> that logs and rethrows.
\<close>

definition processThread_rest :: "env \<Rightarrow> string \<Rightarrow> string \<Rightarrow> thrown + annotation query_result
    \<Rightarrow> world \<Rightarrow> world \<times> (thrown + unit)" where
  "processThread_rest en threadId uid answer w =
     (let rethrow = (\<lambda>e w'. (emit (LogError (''Error processing thread '' @ threadId @ '': '' @ error_text e)) w', Inl e))
      in case answer of
           Inl e \<Rightarrow> rethrow e w
         | Inr r \<Rightarrow>
             (case error r of
                Some e \<Rightarrow> rethrow (ErrorObj (''Failed to fetch thread annotations: '' @ error_text e)) w
              | None \<Rightarrow>
                  (case data r of
                     Some (firstAnnotation # others) \<Rightarrow>
                       (let w2 = emit (EmbeddingsProcessThread uid threadId
                                         (created_at firstAnnotation) (recipients firstAnnotation)) w
                        in case embeddings_processThread en (trace w) uid threadId of
                             Some e \<Rightarrow> rethrow e w2
                           | None \<Rightarrow> (w2, Inr ()))
                   | _ \<Rightarrow> (w, Inr ()))))"

text \<open>\<^verbatim>\<open>processThread\<close> of the receiver: the embedding of one thread.\<close>

definition processThread :: "env \<Rightarrow> string \<Rightarrow> string \<Rightarrow> world \<Rightarrow> world \<times> (thrown + unit)" where
  "processThread en threadId uid w =
     processThread_rest en threadId uid (annotations_select en (trace w) threadId uid)
       (emit (SelectAnnotations threadId uid) w)"

text \<open>The queries with which the calls of \<^verbatim>\<open>processThread\<close> for a slice start.\<close>

fun start_threads :: "env \<Rightarrow> string list \<Rightarrow> string \<Rightarrow> world
    \<Rightarrow> world \<times> (string \<times> (thrown + annotation query_result)) list" where
  "start_threads en [] uid w = (w, [])"
| "start_threads en (threadId # rest) uid w =
     (let answer = annotations_select en (trace w) threadId uid;
          (w1, answers) = start_threads en rest uid (emit (SelectAnnotations threadId uid) w)
      in (w1, (threadId, answer) # answers))"

text \<open>
  What follows each answer: the rest of \<^verbatim>\<open>processThread\<close> and, when it rejects, the
  \<^verbatim>\<open>.catch\<close> of \<^verbatim>\<open>processThreads\<close>; a \<^verbatim>\<open>.catch\<close> that throws rejects its element.
\<close>

fun finish_threads :: "env \<Rightarrow> string \<Rightarrow> (string \<times> (thrown + annotation query_result)) list
    \<Rightarrow> world \<Rightarrow> world \<times> thrown option" where
  "finish_threads en uid [] w = (w, None)"
| "finish_threads en uid ((threadId, answer) # rest) w =
     (case processThread_rest en threadId uid answer w of
        (w1, Inr u) \<Rightarrow> finish_threads en uid rest w1
      | (w1, Inl e) \<Rightarrow>
          (case message_of e of
             Inr m \<Rightarrow>
               finish_threads en uid rest
                 (emit (LogError (''Failed to process thread '' @ threadId @ '': '' @ m)) w1)
           | Inl x \<Rightarrow> (fst (finish_threads en uid rest w1), Some x)))"

text \<open>The embeddings of one slice and the rejection of their \<^verbatim>\<open>Promise.all\<close>, if any.\<close>

definition embed_all :: "env \<Rightarrow> string list \<Rightarrow> string \<Rightarrow> world \<Rightarrow> world \<times> thrown option" where
  "embed_all en threadIds uid w =
     (case start_threads en threadIds uid w of (w1, answers) \<Rightarrow> finish_threads en uid answers w1)"

text \<open>One iteration of the loop of \<^verbatim>\<open>processThreads\<close>: the \<^verbatim>\<open>try\<close> block and its \<^verbatim>\<open>catch\<close>.\<close>

definition process_batch :: "env \<Rightarrow> gmail \<Rightarrow> string list \<Rightarrow> string \<Rightarrow> world \<Rightarrow> world" where
  "process_batch en g batchThreadIds uid w =
     (case fetch_threads en g batchThreadIds w of
        (w1, threadsData) \<Rightarrow>
          (let messageIds = message_ids threadsData in
           if messageIds = [] then w1
           else
             (case batchGetMessages en g messageIds w1 of
                (w2, Inl e) \<Rightarrow> emit (LogError (''Error processing batch of threads: '' @ error_text e)) w2
              | (w2, Inr u) \<Rightarrow>
                  (case autoAnnotate en g batchThreadIds uid w2 of
                     (w3, Inl e) \<Rightarrow> emit (LogError (''Error processing batch of threads: '' @ error_text e)) w3
                   | (w3, Inr u) \<Rightarrow>
                       (case embed_all en batchThreadIds uid w3 of
                          (w4, Some e) \<Rightarrow>
                            emit (LogError (''Error processing batch of threads: '' @ error_text e)) w4
                        | (w4, None) \<Rightarrow> w4)))))"

text \<open>\<^verbatim>\<open>processThreads\<close>: slice after slice, each of at most \<open>BATCH_SIZE\<close> identifiers.\<close>

function processThreads :: "env \<Rightarrow> gmail \<Rightarrow> string list \<Rightarrow> string \<Rightarrow> world \<Rightarrow> world" where
  "processThreads en g threadIds uid w =
     (if threadIds = [] then w
      else processThreads en g (drop BATCH_SIZE threadIds) uid
             (process_batch en g (take BATCH_SIZE threadIds) uid w))"
  by pat_completeness auto
termination
  by (relation "measure (\<lambda>(en, g, threadIds, uid, w). length threadIds)")
     (auto simp: BATCH_SIZE_def)

declare processThreads.simps [simp del]

subsection \<open>The coordinator\<close>

text \<open>\<^verbatim>\<open>processMessage\<close> of the service.\<close>

definition processMessage :: "env \<Rightarrow> nat \<Rightarrow> message \<Rightarrow> world \<Rightarrow> (world \<times> (thrown + unit)) option" where
  "processMessage en fuel m w =
     (let uid = userId (body m);
          g = accessToken (body m)
      in case getExistingThreads en uid w of
           (w1, Inl e) \<Rightarrow> Some (w1, Inl e)
         | (w1, Inr existingThreads) \<Rightarrow>
             (case fetchNewThreads en fuel g existingThreads uid (''pagination:'' @ uid) w1 of
                None \<Rightarrow> None
              | Some (w2, Inl e) \<Rightarrow> Some (w2, Inl e)
              | Some (w2, Inr threadIds) \<Rightarrow> Some (processThreads en g threadIds uid w2, Inr ())))"

text \<open>\<^verbatim>\<open>message.deliveryCount || 0\<close>\<close>

definition delivery_count :: "message \<Rightarrow> nat" where
  "delivery_count m = (case deliveryCount m of None \<Rightarrow> 0 | Some n \<Rightarrow> n)"

text \<open>\<^verbatim>\<open>handleMessageError\<close>\<close>

definition handleMessageError :: "env \<Rightarrow> message \<Rightarrow> thrown \<Rightarrow> world \<Rightarrow> world \<times> (thrown + unit)" where
  "handleMessageError en m e w =
     (let retryCount = delivery_count m + 1;
          maxRetries = 3
      in if retryCount \<le> maxRetries then
           (let w1 = emit (AbandonMessage m) w in
            case abandonMessage en (trace w) m of
              Some x \<Rightarrow> (w1, Inl x)
            | None \<Rightarrow>
                (emit (LogWarn (''Message abandoned for retry. Attempt '' @ decimal retryCount
                                 @ '' of '' @ decimal maxRetries)) w1, Inr ()))
         else
           (let w1 = emit (DeadLetterMessage m ''Max retries exceeded'' (error_text e)) w in
            case deadLetterMessage en (trace w) m of
              Some x \<Rightarrow> (w1, Inl x)
            | None \<Rightarrow>
                (emit (LogError (''Message moved to dead letter queue after '' @ decimal maxRetries
                                  @ '' retries'')) w1, Inr ())))"

text \<open>The key under which the handler tracks a message: \<^verbatim>\<open>message.messageId?.toString() || ''\<close>.\<close>

definition messageKey :: "message \<Rightarrow> string" where
  "messageKey m = (case messageId m of None \<Rightarrow> [] | Some s \<Rightarrow> s)"

text \<open>The two statements before the \<^verbatim>\<open>try\<close> of the handler, and its \<^verbatim>\<open>finally\<close> block.\<close>

definition admit :: "string \<Rightarrow> service \<Rightarrow> service" where
  "admit key s = s\<lparr>activeProcessingCount := activeProcessingCount s + 1,
                   processingMessages := insert key (processingMessages s)\<rparr>"

definition release :: "string \<Rightarrow> service \<Rightarrow> service" where
  "release key s = s\<lparr>processingMessages := processingMessages s - {key},
                     activeProcessingCount := activeProcessingCount s - 1\<rparr>"

text \<open>The \<^verbatim>\<open>catch\<close> block of the handler.\<close>

definition on_error :: "env \<Rightarrow> message \<Rightarrow> thrown \<Rightarrow> world \<Rightarrow> world \<times> (thrown + unit)" where
  "on_error en m e w =
     handleMessageError en m (as_Error e)
       (emit (LogError (''Error processing message: '' @ error_text e)) w)"

text \<open>The \<^verbatim>\<open>try\<close> block of the handler together with its \<^verbatim>\<open>catch\<close>.\<close>

definition attempt :: "env \<Rightarrow> nat \<Rightarrow> message \<Rightarrow> world \<Rightarrow> (world \<times> (thrown + unit)) option" where
  "attempt en fuel m w =
     (case processMessage en fuel m w of
        None \<Rightarrow> None
      | Some (w1, Inl e) \<Rightarrow> Some (on_error en m e w1)
      | Some (w1, Inr u) \<Rightarrow>
          (let w2 = emit (CompleteMessage m) w1 in
           case completeMessage en (trace w1) m of
             Some e \<Rightarrow> Some (on_error en m e w2)
           | None \<Rightarrow> Some (w2, Inr ())))"

text \<open>
  The handler given to \<^verbatim>\<open>receiver.subscribe\<close>, run from the arrival of a message to
  the settling of its promise (\<open>Inl\<close>: the promise rejects).
\<close>

definition on_message :: "env \<Rightarrow> nat \<Rightarrow> message \<Rightarrow> service \<Rightarrow> (service \<times> (thrown + unit)) option" where
  "on_message en fuel m s =
     (let key = messageKey m in
      if key \<in> processingMessages s then Some (s, Inr ())
      else if activeProcessingCount s \<ge> MAX_CONCURRENT_MESSAGES then Some (s, Inr ())
      else
        (let s1 = admit key s in
         case attempt en fuel m (outside s1) of
           None \<Rightarrow> None
         | Some (w, r) \<Rightarrow> Some (release key (s1\<lparr>outside := w\<rparr>), r)))"

subsection \<open>Interleaved handlers\<close>

text \<open>
  The bus invokes the handler once per delivery, and the invocations share one thread
  of control: an invocation runs without interruption from its start to its first
  \<^verbatim>\<open>await\<close> (the admission checks and, when they pass, the increment and the
  insertion), is then suspended inside the \<^verbatim>\<open>try\<close> block while other invocations
  start, work or finish, and runs its \<^verbatim>\<open>finally\<close> block without interruption. A state
  of the process is the service together with the messages whose invocations are
  suspended; the work of a suspended invocation changes the world outside only.
\<close>

datatype action = Arrive message | Work world | Finish message

fun act :: "action \<Rightarrow> service \<times> message list \<Rightarrow> service \<times> message list" where
  "act (Arrive m) (s, inflight) =
     (if messageKey m \<in> processingMessages s then (s, inflight)
      else if activeProcessingCount s \<ge> MAX_CONCURRENT_MESSAGES then (s, inflight)
      else (admit (messageKey m) s, m # inflight))"
| "act (Work w) (s, inflight) = (s\<lparr>outside := w\<rparr>, inflight)"
| "act (Finish m) (s, inflight) =
     (if m \<in> set inflight then (release (messageKey m) s, remove1 m inflight)
      else (s, inflight))"

definition run :: "action list \<Rightarrow> service \<times> message list \<Rightarrow> service \<times> message list" where
  "run acts x = foldl (\<lambda>y a. act a y) x acts"

text \<open>The service as constructed: no message in flight.\<close>

definition initial :: "world \<Rightarrow> service" where
  "initial w = \<lparr>activeProcessingCount = 0, processingMessages = {}, outside = w\<rparr>"

subsection \<open>Reading a trace\<close>

text \<open>Commands that change the cursor store.\<close>

fun cursor_write :: "event \<Rightarrow> bool" where
  "cursor_write (RedisDel key) = True"
| "cursor_write (RedisSet key v ex) = True"
| "cursor_write ev = False"

text \<open>Calls that settle a bus message.\<close>

fun bus_call :: "event \<Rightarrow> bool" where
  "bus_call (CompleteMessage m) = True"
| "bus_call (AbandonMessage m) = True"
| "bus_call (DeadLetterMessage m reason description) = True"
| "bus_call ev = False"

text \<open>Calls of the dispatch stage: annotation and embedding.\<close>

fun dispatch_call :: "event \<Rightarrow> bool" where
  "dispatch_call (AutoAnnotate g threadIds uid) = True"
| "dispatch_call (AnnotateThread g threadId uid) = True"
| "dispatch_call (SelectAnnotations threadId uid) = True"
| "dispatch_call (EmbeddingsProcessThread uid threadId date rcpt) = True"
| "dispatch_call ev = False"

text \<open>The query with which \<open>processThread\<close> starts.\<close>

fun annotation_query :: "event \<Rightarrow> bool" where
  "annotation_query (SelectAnnotations threadId uid) = True"
| "annotation_query ev = False"

text \<open>Calls of the embedding collaborator.\<close>

fun embedding_call :: "event \<Rightarrow> bool" where
  "embedding_call (EmbeddingsProcessThread uid threadId date rcpt) = True"
| "embedding_call ev = False"

text \<open>
  The calls of the embedding collaborator that the answers of the queries of a slice
  ask for: one for each thread whose query found a row, with the first row's data.
\<close>

fun embeddings_due :: "string \<Rightarrow> (string \<times> (thrown + annotation query_result)) list \<Rightarrow> event list" where
  "embeddings_due uid [] = []"
| "embeddings_due uid ((threadId, answer) # rest) =
     (case answer of
        Inl e \<Rightarrow> []
      | Inr r \<Rightarrow>
          (case error r of
             Some e \<Rightarrow> []
           | None \<Rightarrow>
               (case data r of
                  Some (firstAnnotation # others) \<Rightarrow>
                    [EmbeddingsProcessThread uid threadId (created_at firstAnnotation) (recipients firstAnnotation)]
                | _ \<Rightarrow> [])))
     @ embeddings_due uid rest"

text \<open>The log lines that the failed queries of a slice ask for.\<close>

fun query_failures :: "(string \<times> (thrown + annotation query_result)) list \<Rightarrow> event list" where
  "query_failures [] = []"
| "query_failures ((threadId, answer) # rest) =
     (case answer of
        Inl e \<Rightarrow> [LogError (''Error processing thread '' @ threadId @ '': '' @ error_text e)]
      | Inr r \<Rightarrow>
          (case error r of
             Some e \<Rightarrow> [LogError (''Error processing thread '' @ threadId
                                   @ '': Failed to fetch thread annotations: '' @ error_text e)]
           | None \<Rightarrow> []))
     @ query_failures rest"

text \<open>Whether an event is a log line of the \<^verbatim>\<open>catch\<close> around a slice.\<close>

fun slice_catch :: "event \<Rightarrow> bool" where
  "slice_catch (LogError s) = (take 35 s = ''Error processing batch of threads: '')"
| "slice_catch ev = False"

text \<open>
  Whether every failed call of the embedding collaborator among the events \<open>evs\<close>, which
  follow the history \<open>h\<close>, is followed by the log line of \<open>processThread\<close> and by
  that of the \<^verbatim>\<open>.catch\<close> of \<open>processThreads\<close>, or, when the \<^verbatim>\<open>.catch\<close> cannot read a
  message of the error, is \<open>caught\<close>.
\<close>

fun failures_logged :: "env \<Rightarrow> bool \<Rightarrow> event list \<Rightarrow> event list \<Rightarrow> bool" where
  "failures_logged en caught h [] = True"
| "failures_logged en caught h (ev # evs) =
     ((case ev of
         EmbeddingsProcessThread uid threadId date rcpt \<Rightarrow>
           (case embeddings_processThread en h uid threadId of
              None \<Rightarrow> True
            | Some e \<Rightarrow>
                LogError (''Error processing thread '' @ threadId @ '': '' @ error_text e) \<in> set evs \<and>
                (case message_of e of
                   Inr m \<Rightarrow> LogError (''Failed to process thread '' @ threadId @ '': '' @ m) \<in> set evs
                 | Inl x \<Rightarrow> caught))
       | _ \<Rightarrow> True) \<and>
      failures_logged en caught (h @ [ev]) evs)"

text \<open>Requests for a thread.\<close>

fun threads_get_call :: "event \<Rightarrow> bool" where
  "threads_get_call (ThreadsGet g threadId) = True"
| "threads_get_call ev = False"

subsection \<open>Invariants\<close>

text \<open>What the discovery loop maintains about the identifiers collected so far.\<close>

definition fresh :: "int \<Rightarrow> string list \<Rightarrow> string list \<Rightarrow> bool" where
  "fresh remaining existing ids \<longleftrightarrow>
     distinct ids \<and> set ids \<inter> set existing = {} \<and> int (length ids) \<le> remaining"

text \<open>The trace is never shortened.\<close>

definition grows :: "world \<Rightarrow> world \<Rightarrow> bool" where
  "grows w w' \<longleftrightarrow> length (trace w) \<le> length (trace w')"

text \<open>
  The admission gate: the counter counts the suspended invocations, the in-flight set
  holds exactly their keys, no two of them share a key, and the limit is respected.
\<close>

definition gate_inv :: "service \<times> message list \<Rightarrow> bool" where
  "gate_inv x \<longleftrightarrow>
     (case x of (s, inflight) \<Rightarrow>
        activeProcessingCount s = int (length inflight) \<and>
        processingMessages s = set (map messageKey inflight) \<and>
        distinct (map messageKey inflight) \<and>
        activeProcessingCount s \<le> MAX_CONCURRENT_MESSAGES)"

subsection \<open>Sample collaborators\<close>

text \<open>A mailbox of three pages, reached by the tokens \<^verbatim>\<open>null\<close>, \<open>p2\<close> and \<open>p3\<close>.\<close>

definition thr :: "string \<Rightarrow> gmail_thread" where
  "thr t = \<lparr>thread_id = Str t, messages = None\<rparr>"

definition mailbox_page :: "jsval \<Rightarrow> list_response" where
  "mailbox_page tok =
     (if tok = Null then \<lparr>threads = Some [thr ''t1'', thr ''t2''], nextPageToken = Str ''p2''\<rparr>
      else if tok = Str ''p2'' then \<lparr>threads = Some [thr ''t2'', thr ''t3''], nextPageToken = Str ''p3''\<rparr>
      else if tok = Str ''p3'' then \<lparr>threads = Some [thr ''t4''], nextPageToken = Undefined\<rparr>
      else \<lparr>threads = None, nextPageToken = Undefined\<rparr>)"

text \<open>Collaborators that never fail; every thread holds one message.\<close>

definition calm :: env where
  "calm = \<lparr>redis_command = (\<lambda>h. None),
     thread_embeddings_select = (\<lambda>h uid. Inr \<lparr>data = Some [''t1''], error = None\<rparr>),
     threads_list = (\<lambda>h g tok. Inr (mailbox_page tok)),
     threads_get = (\<lambda>h g t. Inr \<lparr>thread_id = Str t, messages = Some [\<lparr>message_id = Str (t @ ''-m'')\<rparr>]\<rparr>),
     messages_get = (\<lambda>h g i. None),
     annotations_lookup = (\<lambda>h uid. None),
     annotate_thread = (\<lambda>h g t uid. None),
     annotations_select = (\<lambda>h t uid. Inr \<lparr>data = Some [\<lparr>created_at = ''2024'', recipients = ''r''\<rparr>], error = None\<rparr>),
     embeddings_processThread = (\<lambda>h uid t. None),
     completeMessage = (\<lambda>h m. None),
     abandonMessage = (\<lambda>h m. None),
     deadLetterMessage = (\<lambda>h m. None)\<rparr>"

text \<open>The mailbox refuses the third page.\<close>

definition flaky :: env where
  "flaky = calm\<lparr>threads_list :=
     (\<lambda>h g tok. if tok = Str ''p3'' then Inl (ErrorObj ''rate limit'') else Inr (mailbox_page tok))\<rparr>"

text \<open>The bus refuses to complete a message.\<close>

definition unsettled :: env where
  "unsettled = calm\<lparr>completeMessage := (\<lambda>h m. Some (ThrownValue ''lock lost'' ''undefined''))\<rparr>"

text \<open>The body of one message cannot be fetched.\<close>

definition lossy :: env where
  "lossy = calm\<lparr>messages_get :=
     (\<lambda>h g i. if i = Str ''t3-m'' then Some (ErrorObj ''boom'') else None)\<rparr>"

text \<open>The annotation collaborator cannot read its table.\<close>

definition dbdown :: env where
  "dbdown = calm\<lparr>annotations_lookup := (\<lambda>h uid. Some (ErrorObj ''db down''))\<rparr>"

text \<open>Annotating thread \<open>t2\<close> fails, and no annotation of \<open>t2\<close> is stored.\<close>

definition picky :: env where
  "picky = calm\<lparr>annotate_thread :=
       (\<lambda>h g t uid. if t = ''t2'' then Some (ErrorObj ''model refused'') else None),
     annotations_select :=
       (\<lambda>h t uid. if t = ''t2'' then Inr \<lparr>data = Some [], error = None\<rparr>
                  else Inr \<lparr>data = Some [\<lparr>created_at = ''2024'', recipients = ''r''\<rparr>], error = None\<rparr>)\<rparr>"

text \<open>
  The query for \<open>t2\<close> reports an error, the embedding of \<open>t3\<close> fails, and the
  embedding of \<open>t4\<close> rejects with \<^verbatim>\<open>null\<close>.
\<close>

definition brittle :: env where
  "brittle = calm\<lparr>annotations_select :=
       (\<lambda>h t uid. if t = ''t2'' then Inr \<lparr>data = None, error = Some (ThrownValue ''[object Object]'' ''timeout'')\<rparr>
                  else Inr \<lparr>data = Some [\<lparr>created_at = ''2024'', recipients = ''r''\<rparr>], error = None\<rparr>),
     embeddings_processThread :=
       (\<lambda>h uid t. if t = ''t3'' then Some (ErrorObj ''no vector'')
                  else if t = ''t4'' then Some ThrownNull else None)\<rparr>"


definition w0 :: world where
  "w0 = \<lparr>redis = Map.empty, trace = []\<rparr>"

text \<open>A world in which a cursor for user \<open>u\<close> is stored.\<close>

definition resuming :: world where
  "resuming = \<lparr>redis = [''pagination:u'' \<mapsto> (''p2'', 1800)], trace = []\<rparr>"

definition msg :: "nat \<Rightarrow> message" where
  "msg n = \<lparr>messageId = Some ''m-1'', deliveryCount = Some n,
            body = \<lparr>userId = ''u'', accessToken = ''tok''\<rparr>\<rparr>"

definition anonymous :: "string \<Rightarrow> message" where
  "anonymous uid = \<lparr>messageId = None, deliveryCount = None,
                    body = \<lparr>userId = uid, accessToken = ''tok''\<rparr>\<rparr>"

definition numbered :: "nat \<Rightarrow> message" where
  "numbered n = \<lparr>messageId = Some (decimal n), deliveryCount = Some 0,
                 body = \<lparr>userId = ''u'', accessToken = ''tok''\<rparr>\<rparr>"

text \<open>
  Twelve deliveries with twelve identifiers, then one invocation finishes, a duplicate
  arrives, and two more deliveries compete for the slot that was freed.
\<close>

definition burst :: "action list" where
  "burst = [Arrive (numbered 0), Arrive (numbered 1), Arrive (numbered 2), Arrive (numbered 3),
            Arrive (numbered 4), Arrive (numbered 5), Arrive (numbered 6), Arrive (numbered 7),
            Arrive (numbered 8), Arrive (numbered 9), Arrive (numbered 10), Arrive (numbered 11),
            Finish (numbered 3), Arrive (numbered 5), Arrive (numbered 11), Arrive (numbered 3)]"

section \<open>Lemmas\<close>

subsection \<open>Effects on the trace and on the cursor store\<close>

lemma filter_trace_emit [simp]:
  "filter P (trace (emit ev w)) = filter P (trace w) @ (if P ev then [ev] else [])"
  by (simp add: emit_def)

lemma redis_emit [simp]: "redis (emit ev w) = redis w"
  by (simp add: emit_def)

lemma trace_emit [simp]: "trace (emit ev w) = trace w @ [ev]"
  by (simp add: emit_def)

lemma Some_the: "map_option snd x = Some r \<Longrightarrow> x = Some (fst (the x), r)"
  by (cases x) auto

subsection \<open>The discovery loop\<close>

lemma set_add_set: "set (set_add x xs) = insert x (set xs)"
  by (auto simp: set_add_def)

lemma set_add_distinct: "distinct xs \<Longrightarrow> distinct (set_add x xs)"
  by (simp add: set_add_def)

lemma set_add_length: "length (set_add x xs) \<le> Suc (length xs)"
  by (simp add: set_add_def)

lemma fresh_step:
  assumes "fresh remaining existing ids" "int (length ids) < remaining" "s \<notin> set existing"
  shows "fresh remaining existing (set_add s ids)"
  using assms set_add_length [of s ids]
  by (auto simp: fresh_def set_add_set set_add_distinct)

lemma filter_page_fresh:
  "fresh remaining existing ids \<Longrightarrow> fresh remaining existing (filter_page remaining existing ts ids)"
proof (induction ts arbitrary: ids)
  case Nil
  then show ?case by simp
next
  case (Cons t ts)
  show ?case
  proof (cases "int (length ids) \<ge> remaining")
    case True
    then show ?thesis using Cons.prems by simp
  next
    case False
    then have lt: "int (length ids) < remaining" by simp
    have "fresh remaining existing
            (case thread_id t of
               Str s \<Rightarrow> if s \<noteq> [] \<and> s \<notin> set existing then set_add s ids else ids
             | _ \<Rightarrow> ids)"
      using Cons.prems lt by (auto split: jsval.splits intro: fresh_step)
    from Cons.IH [OF this] show ?thesis using False by simp
  qed
qed

lemma discover_fresh:
  "discover en g remaining existing fuel tok ids w = Some (w', Inr (tok', ids')) \<Longrightarrow>
   fresh remaining existing ids \<Longrightarrow> fresh remaining existing ids'"
proof (induction fuel arbitrary: tok ids w)
  case 0
  then show ?case by (auto split: if_splits)
next
  case (Suc fuel)
  show ?case
  proof (cases "tok \<noteq> Undefined \<and> int (length ids) < remaining")
    case False
    then show ?thesis using Suc.prems by auto
  next
    case True
    obtain w1 r where f: "fetchThreadBatch en g tok w = (w1, r)" by (cases "fetchThreadBatch en g tok w")
    show ?thesis
    proof (cases r)
      case (Inl e)
      then show ?thesis using Suc.prems True f by simp
    next
      case (Inr page)
      then have "discover en g remaining existing fuel (next_token page)
                   (filter_page remaining existing (items page) ids) w1 = Some (w', Inr (tok', ids'))"
        using Suc.prems(1) True f by simp
      from Suc.IH [OF this filter_page_fresh [OF Suc.prems(2)]] show ?thesis .
    qed
  qed
qed

lemma fetchThreadBatch_cursor:
  "fetchThreadBatch en g tok w = (w1, r) \<Longrightarrow>
   redis w1 = redis w \<and> filter cursor_write (trace w1) = filter cursor_write (trace w)"
  by (auto simp: fetchThreadBatch_def Let_def split: sum.splits)

lemma fetchThreadBatch_error:
  "fetchThreadBatch en g tok w = (w1, Inl e) \<Longrightarrow> threads_list en (trace w) g tok = Inl e"
  by (auto simp: fetchThreadBatch_def Let_def split: sum.splits)

lemma discover_cursor:
  "discover en g remaining existing fuel tok ids w = Some (w', r) \<Longrightarrow>
   redis w' = redis w \<and> filter cursor_write (trace w') = filter cursor_write (trace w)"
proof (induction fuel arbitrary: tok ids w)
  case 0
  then show ?case by (auto split: if_splits)
next
  case (Suc fuel)
  show ?case
  proof (cases "tok \<noteq> Undefined \<and> int (length ids) < remaining")
    case False
    then show ?thesis using Suc.prems by auto
  next
    case True
    obtain w1 p where f: "fetchThreadBatch en g tok w = (w1, p)"
      by (cases "fetchThreadBatch en g tok w")
    note c = fetchThreadBatch_cursor [OF f]
    show ?thesis
    proof (cases p)
      case (Inl e)
      then show ?thesis using Suc.prems True f c by simp
    next
      case (Inr page)
      then have "discover en g remaining existing fuel (next_token page)
                   (filter_page remaining existing (items page) ids) w1 = Some (w', r)"
        using Suc.prems True f by simp
      from Suc.IH [OF this] c show ?thesis by simp
    qed
  qed
qed

lemma discover_exit:
  "discover en g remaining existing fuel tok ids w = Some (w', Inr (tok', ids')) \<Longrightarrow>
   tok' = Undefined \<or> remaining \<le> int (length ids')"
proof (induction fuel arbitrary: tok ids w)
  case 0
  then show ?case by (auto split: if_splits)
next
  case (Suc fuel)
  show ?case
  proof (cases "tok \<noteq> Undefined \<and> int (length ids) < remaining")
    case False
    then show ?thesis using Suc.prems by auto
  next
    case True
    obtain w1 p where f: "fetchThreadBatch en g tok w = (w1, p)"
      by (cases "fetchThreadBatch en g tok w")
    show ?thesis
    proof (cases p)
      case (Inl e)
      then show ?thesis using Suc.prems True f by simp
    next
      case (Inr page)
      then have "discover en g remaining existing fuel (next_token page)
                   (filter_page remaining existing (items page) ids) w1 = Some (w', Inr (tok', ids'))"
        using Suc.prems True f by simp
      from Suc.IH [OF this] show ?thesis .
    qed
  qed
qed

lemma discover_error:
  "discover en g remaining existing fuel tok ids w = Some (w', Inl e) \<Longrightarrow>
   \<exists>h t. threads_list en h g t = Inl e"
proof (induction fuel arbitrary: tok ids w)
  case 0
  then show ?case by (auto split: if_splits)
next
  case (Suc fuel)
  show ?case
  proof (cases "tok \<noteq> Undefined \<and> int (length ids) < remaining")
    case False
    then show ?thesis using Suc.prems by auto
  next
    case True
    obtain w1 p where f: "fetchThreadBatch en g tok w = (w1, p)"
      by (cases "fetchThreadBatch en g tok w")
    show ?thesis
    proof (cases p)
      case (Inl x)
      then have "x = e" using Suc.prems True f by simp
      then show ?thesis using fetchThreadBatch_error f Inl by blast
    next
      case (Inr page)
      then have "discover en g remaining existing fuel (next_token page)
                   (filter_page remaining existing (items page) ids) w1 = Some (w', Inl e)"
        using Suc.prems True f by simp
      from Suc.IH [OF this] show ?thesis .
    qed
  qed
qed

text \<open>Fuel only bounds the loop: a run that ends is the same with more of it.\<close>

lemma discover_more_fuel:
  "discover en g remaining existing fuel tok ids w = Some r \<Longrightarrow>
   discover en g remaining existing (fuel + k) tok ids w = Some r"
proof (induction fuel arbitrary: tok ids w)
  case 0
  then show ?case by (cases k) (auto split: if_splits)
next
  case (Suc fuel)
  show ?case
  proof (cases "tok \<noteq> Undefined \<and> int (length ids) < remaining")
    case False
    then show ?thesis using Suc.prems by auto
  next
    case True
    obtain w1 p where f: "fetchThreadBatch en g tok w = (w1, p)"
      by (cases "fetchThreadBatch en g tok w")
    show ?thesis
    proof (cases p)
      case (Inl e)
      then show ?thesis using Suc.prems True f by simp
    next
      case (Inr page)
      then have "discover en g remaining existing fuel (next_token page)
                   (filter_page remaining existing (items page) ids) w1 = Some r"
        using Suc.prems True f by simp
      from Suc.IH [OF this] show ?thesis using True f Inr by simp
    qed
  qed
qed

text \<open>How \<open>fetchNewThreads\<close> unfolds once the cursor has been read and the cap leaves room.\<close>

lemma fetchNewThreads_below_cap:
  assumes "0 < MAX_THREADS_PER_USER - int (length existing)"
  shows "fetchNewThreads en fuel g existing uid key w =
     (case redis_command en (trace w) of
        Some e \<Rightarrow> Some (emit (RedisGet key) w, Inl e)
      | None \<Rightarrow>
         (case discover en g (MAX_THREADS_PER_USER - int (length existing)) existing fuel
                 (case redis w key of None \<Rightarrow> Null | Some (v, ttl) \<Rightarrow> Str v) [] (emit (RedisGet key) w) of
            None \<Rightarrow> None
          | Some (w2, Inl e) \<Rightarrow> Some (emit (LogError (''Error fetching threads: '' @ error_text e)) w2, Inl e)
          | Some (w2, Inr (tok, threadIds)) \<Rightarrow>
              (case update_pagination en key (MAX_THREADS_PER_USER - int (length existing)) tok threadIds w2 of
                 (w3, Inl e) \<Rightarrow> Some (emit (LogError (''Error fetching threads: '' @ error_text e)) w3, Inl e)
               | (w3, Inr u) \<Rightarrow> Some (w3, Inr threadIds))))"
  using assms by (simp add: fetchNewThreads_def redis_get_def Let_def split: option.splits)

lemma fetchNewThreads_at_cap:
  assumes "MAX_THREADS_PER_USER - int (length existing) \<le> 0"
  shows "fetchNewThreads en fuel g existing uid key w =
     Some (emit (RedisGet key) w, case redis_command en (trace w) of None \<Rightarrow> Inr [] | Some e \<Rightarrow> Inl e)"
  using assms by (simp add: fetchNewThreads_def redis_get_def Let_def split: option.splits)

lemma fetchNewThreads_more_fuel:
  assumes "fetchNewThreads en fuel g existing uid key w = Some r"
  shows "fetchNewThreads en (fuel + k) g existing uid key w = Some r"
proof (cases "0 < MAX_THREADS_PER_USER - int (length existing)")
  case False
  then have "MAX_THREADS_PER_USER - int (length existing) \<le> 0" by simp
  from fetchNewThreads_at_cap [OF this] assms show ?thesis by simp
next
  case True
  let ?d = "\<lambda>n. discover en g (MAX_THREADS_PER_USER - int (length existing)) existing n
                 (case redis w key of None \<Rightarrow> Null | Some (v, ttl) \<Rightarrow> Str v) [] (emit (RedisGet key) w)"
  show ?thesis
  proof (cases "redis_command en (trace w)")
    case (Some e)
    then show ?thesis using assms unfolding fetchNewThreads_below_cap [OF True] by simp
  next
    case None
    then obtain q where d: "?d fuel = Some q"
      using assms unfolding fetchNewThreads_below_cap [OF True] by (auto split: option.splits)
    from discover_more_fuel [OF d] have "?d (fuel + k) = Some q" .
    with d None assms show ?thesis unfolding fetchNewThreads_below_cap [OF True] by simp
  qed
qed

lemma update_pagination_ok:
  "update_pagination en key remaining tok ids w = (w', Inr u) \<Longrightarrow>
   w' = emit (if truthy tok \<and> int (length ids) < remaining
              then RedisSet key (js_String tok) 3600 else RedisDel key)
          (w\<lparr>redis := (if truthy tok \<and> int (length ids) < remaining
                        then (redis w)(key \<mapsto> (js_String tok, 3600)) else (redis w)(key := None))\<rparr>)"
  by (auto simp: update_pagination_def redis_del_def redis_set_def split: option.splits if_splits)

subsection \<open>The trace only grows\<close>

lemma grows_refl [simp]: "grows w w"
  by (simp add: grows_def)

lemma grows_trans: "grows a b \<Longrightarrow> grows b c \<Longrightarrow> grows a c"
  by (simp add: grows_def)

lemma grows_emit: "grows a b \<Longrightarrow> grows a (emit ev b)"
  by (simp add: grows_def)

lemma grows_redis_get: "grows w (fst (redis_get en key w))"
  by (simp add: redis_get_def grows_def split: option.splits)

lemma grows_redis_del: "grows w (fst (redis_del en key w))"
  by (simp add: redis_del_def grows_def emit_def split: option.splits)

lemma grows_redis_set: "grows w (fst (redis_set en key v ex w))"
  by (simp add: redis_set_def grows_def emit_def split: option.splits)

lemma grows_fetchThreadBatch: "grows w (fst (fetchThreadBatch en g tok w))"
  by (simp add: fetchThreadBatch_def grows_def Let_def split: sum.splits)

lemma grows_discover:
  "discover en g remaining existing fuel tok ids w = Some (w', r) \<Longrightarrow> grows w w'"
proof (induction fuel arbitrary: tok ids w)
  case 0
  then show ?case by (auto split: if_splits)
next
  case (Suc fuel)
  show ?case
  proof (cases "tok \<noteq> Undefined \<and> int (length ids) < remaining")
    case False
    then show ?thesis using Suc.prems by auto
  next
    case True
    obtain w1 p where f: "fetchThreadBatch en g tok w = (w1, p)"
      by (cases "fetchThreadBatch en g tok w")
    have g1: "grows w w1" using grows_fetchThreadBatch [of w en g tok] f by simp
    show ?thesis
    proof (cases p)
      case (Inl e)
      then show ?thesis using Suc.prems True f g1 by simp
    next
      case (Inr page)
      then have "discover en g remaining existing fuel (next_token page)
                   (filter_page remaining existing (items page) ids) w1 = Some (w', r)"
        using Suc.prems True f by simp
      from Suc.IH [OF this] g1 show ?thesis by (rule grows_trans [rotated])
    qed
  qed
qed

lemma grows_update_pagination: "grows w (fst (update_pagination en key remaining tok ids w))"
  by (simp add: update_pagination_def grows_redis_del grows_redis_set)

lemma grows_fetchNewThreads:
  assumes "fetchNewThreads en fuel g existing uid key w = Some (w', r)"
  shows "grows w w'"
proof -
  obtain w1 p where rg: "redis_get en key w = (w1, p)" by (cases "redis_get en key w")
  have g1: "grows w w1" using grows_redis_get [of w en key] rg by simp
  show ?thesis
  proof (cases p)
    case (Inl e)
    then show ?thesis using assms rg g1 by (simp add: fetchNewThreads_def)
  next
    case (Inr tok)
    let ?rem = "MAX_THREADS_PER_USER - int (length existing)"
    show ?thesis
    proof (cases "?rem \<le> 0")
      case True
      then show ?thesis using assms rg g1 Inr by (simp add: fetchNewThreads_def)
    next
      case False
      then obtain w2 q where d: "discover en g ?rem existing fuel tok [] w1 = Some (w2, q)"
        using assms rg Inr by (auto simp: fetchNewThreads_def Let_def split: option.splits)
      have g2: "grows w w2" using grows_trans [OF g1 grows_discover [OF d]] .
      show ?thesis
      proof (cases q)
        case (Inl e)
        then show ?thesis using assms rg \<open>p = Inr tok\<close> False d g2
          by (auto simp: fetchNewThreads_def Let_def grows_def)
      next
        case (Inr x)
        obtain tok' ids where x: "x = (tok', ids)" by (cases x)
        obtain w3 u where up: "update_pagination en key ?rem tok' ids w2 = (w3, u)"
          by (cases "update_pagination en key ?rem tok' ids w2")
        have g3: "grows w w3"
          using grows_trans [OF g2] grows_update_pagination [of w2 en key ?rem tok' ids] up by simp
        show ?thesis using assms rg \<open>p = Inr tok\<close> False d Inr x up g3
          by (cases u) (auto simp: fetchNewThreads_def simp: grows_def)
      qed
    qed
  qed
qed

lemma request_threads_trace:
  "trace (fst (request_threads en g ids w)) = trace w @ map (ThreadsGet g) ids"
proof (induction ids arbitrary: w)
  case Nil
  then show ?case by simp
next
  case (Cons t ts)
  have "fst (request_threads en g (t # ts) w) = fst (request_threads en g ts (emit (ThreadsGet g t) w))"
    by (simp add: Let_def split: prod.splits)
  then show ?case by (simp add: Cons.IH)
qed

lemma settle_threads_logs:
  "\<exists>evs. trace (fst (settle_threads answers w)) = trace w @ evs \<and> (\<forall>ev \<in> set evs. \<exists>m. ev = LogError m)"
proof (induction answers arbitrary: w)
  case Nil
  then show ?case by simp
next
  case (Cons p rest)
  obtain t answer where p: "p = (t, answer)" by (cases p)
  show ?case
  proof (cases answer)
    case (Inl e)
    let ?w1 = "emit (LogError (''Error fetching thread '' @ t @ '': '' @ error_text e)) w"
    from Cons.IH [of ?w1] obtain evs where
      "trace (fst (settle_threads rest ?w1)) = trace ?w1 @ evs" "\<forall>ev \<in> set evs. \<exists>m. ev = LogError m"
      by blast
    then have "trace (fst (settle_threads rest ?w1))
                 = trace w @ (LogError (''Error fetching thread '' @ t @ '': '' @ error_text e) # evs)
               \<and> (\<forall>ev \<in> set (LogError (''Error fetching thread '' @ t @ '': '' @ error_text e) # evs).
                     \<exists>m. ev = LogError m)"
      by simp
    note f = this
    have st: "fst (settle_threads (p # rest) w) = fst (settle_threads rest ?w1)"
      using p Inl by (simp split: prod.splits)
    from f show ?thesis unfolding st by (rule exI)
  next
    case (Inr d)
    have "fst (settle_threads (p # rest) w) = fst (settle_threads rest w)"
      using p Inr by (simp split: prod.splits)
    then show ?thesis using Cons.IH [of w] by simp
  qed
qed

lemma settle_threads_filter:
  assumes "\<And>m. \<not> P (LogError m)"
  shows "filter P (trace (fst (settle_threads answers w))) = filter P (trace w)"
proof -
  obtain evs where t: "trace (fst (settle_threads answers w)) = trace w @ evs"
    and l: "\<forall>ev \<in> set evs. \<exists>m. ev = LogError m"
    using settle_threads_logs by blast
  have "filter P evs = []" using l assms by (auto simp: filter_empty_conv)
  then show ?thesis using t by simp
qed


lemma fetch_threads_split:
  "fetch_threads en g ids w
     = settle_threads (snd (request_threads en g ids w)) (fst (request_threads en g ids w))"
  by (simp add: fetch_threads_def split: prod.splits)

lemma grows_fetch_threads: "grows w (fst (fetch_threads en g ids w))"
proof -
  obtain evs where "trace (fst (fetch_threads en g ids w)) = trace (fst (request_threads en g ids w)) @ evs"
    unfolding fetch_threads_split using settle_threads_logs by blast
  then show ?thesis by (simp add: grows_def request_threads_trace)
qed

lemma grows_get_messages: "grows w (fst (get_messages en g ids w))"
proof (induction ids arbitrary: w)
  case Nil
  then show ?case by simp
next
  case (Cons i rest)
  have b: "fst (get_messages en g (i # rest) w) = fst (get_messages en g rest (emit (MessagesGet g i) w))"
    by (simp add: Let_def split: prod.splits)
  show ?case unfolding b using grows_trans [OF grows_emit [OF grows_refl] Cons.IH] .
qed

lemma grows_batchGetMessages: "grows w (fst (batchGetMessages en g ids w))"
  using grows_get_messages [of w en g ids]
  by (auto simp: batchGetMessages_def split: prod.splits option.splits simp: grows_def)

lemma grows_annotate_each: "grows w (annotate_each en g ids uid w)"
proof (induction ids arbitrary: w)
  case Nil
  then show ?case by simp
next
  case (Cons t ts)
  let ?w1 = "case annotate_thread en (trace w) g t uid of
               Some e \<Rightarrow> emit (LogError (''Error fetching thread '' @ t @ '': '' @ error_text e)) (emit (AnnotateThread g t uid) w)
             | None \<Rightarrow> emit (AnnotateThread g t uid) w"
  have a: "grows w ?w1" by (auto split: option.splits simp: grows_def)
  have b: "annotate_each en g (t # ts) uid w = annotate_each en g ts uid ?w1"
    by (simp add: Let_def)
  show ?case unfolding b using grows_trans [OF a Cons.IH] .
qed

lemma grows_autoAnnotate: "grows w (fst (autoAnnotate en g ids uid w))"
  using grows_annotate_each [of "emit (AutoAnnotate g ids uid) w" en g ids uid]
  by (auto simp: autoAnnotate_def Let_def grows_def split: option.splits)

lemma grows_processThread_rest: "grows w (fst (processThread_rest en t uid answer w))"
  by (auto simp: processThread_rest_def Let_def grows_def split: sum.splits option.splits list.splits)

lemma start_threads_trace:
  "trace (fst (start_threads en ids uid w)) = trace w @ map (\<lambda>t. SelectAnnotations t uid) ids"
proof (induction ids arbitrary: w)
  case Nil
  then show ?case by simp
next
  case (Cons t ts)
  have "fst (start_threads en (t # ts) uid w) = fst (start_threads en ts uid (emit (SelectAnnotations t uid) w))"
    by (simp add: Let_def split: prod.splits)
  then show ?case by (simp add: Cons.IH)
qed

text \<open>One step of \<open>finish_threads\<close>: the world in which the remaining answers are taken.\<close>

lemma finish_threads_step:
  "fst (finish_threads en uid ((t, answer) # rest) w)
     = fst (finish_threads en uid rest
              (case processThread_rest en t uid answer w of
                 (w1, Inr u) \<Rightarrow> w1
               | (w1, Inl e) \<Rightarrow>
                   (case message_of e of
                      Inr m \<Rightarrow> emit (LogError (''Failed to process thread '' @ t @ '': '' @ m)) w1
                    | Inl x \<Rightarrow> w1)))"
  by (simp split: prod.splits sum.splits)

lemma grows_finish_threads: "grows w (fst (finish_threads en uid answers w))"
proof (induction answers arbitrary: w)
  case Nil
  then show ?case by simp
next
  case (Cons p rest)
  obtain t answer where p: "p = (t, answer)" by (cases p)
  let ?w1 = "case processThread_rest en t uid answer w of
                 (w1, Inr u) \<Rightarrow> w1
               | (w1, Inl e) \<Rightarrow>
                   (case message_of e of
                      Inr m \<Rightarrow> emit (LogError (''Failed to process thread '' @ t @ '': '' @ m)) w1
                    | Inl x \<Rightarrow> w1)"
  have a: "grows w ?w1"
    using grows_processThread_rest [of w en t uid answer]
    by (auto simp: grows_def split: prod.splits sum.splits)
  show ?case unfolding p finish_threads_step using grows_trans [OF a Cons.IH] .
qed

lemma embed_all_split:
  "embed_all en ids uid w
     = finish_threads en uid (snd (start_threads en ids uid w)) (fst (start_threads en ids uid w))"
  by (simp add: embed_all_def split: prod.splits)

lemma grows_embed_all: "grows w (fst (embed_all en ids uid w))"
proof -
  have "grows (fst (start_threads en ids uid w)) (fst (embed_all en ids uid w))"
    unfolding embed_all_split by (rule grows_finish_threads)
  moreover have "grows w (fst (start_threads en ids uid w))"
    by (simp add: grows_def start_threads_trace)
  ultimately show ?thesis by (rule grows_trans [rotated])
qed

lemma grows_process_batch: "grows w (process_batch en g batch uid w)"
proof -
  obtain w1 td where ft: "fetch_threads en g batch w = (w1, td)" by (cases "fetch_threads en g batch w")
  have g1: "grows w w1" using grows_fetch_threads [of w en g batch] ft by simp
  obtain w2 r where bg: "batchGetMessages en g (message_ids td) w1 = (w2, r)"
    by (cases "batchGetMessages en g (message_ids td) w1")
  have g2: "grows w w2" using grows_trans [OF g1] grows_batchGetMessages [of w1 en g "message_ids td"] bg by simp
  obtain w3 q where aa: "autoAnnotate en g batch uid w2 = (w3, q)"
    by (cases "autoAnnotate en g batch uid w2")
  have g3: "grows w w3" using grows_trans [OF g2] grows_autoAnnotate [of w2 en g batch uid] aa by simp
  obtain w4 x where ea: "embed_all en batch uid w3 = (w4, x)" by (cases "embed_all en batch uid w3")
  have g4: "grows w w4" using grows_trans [OF g3] grows_embed_all [of w3 en batch uid] ea by simp
  show ?thesis using ft bg aa ea g1 g2 g3 g4
    by (auto simp: process_batch_def Let_def grows_def split: sum.splits option.splits)
qed

lemma grows_processThreads: "grows w (processThreads en g ids uid w)"
proof (induction en g ids uid w rule: processThreads.induct)
  case (1 en g threadIds uid w)
  show ?case
  proof (cases "threadIds = []")
    case True
    then show ?thesis by (simp add: processThreads.simps)
  next
    case False
    from "1" [OF False] grows_process_batch [of w en g "take BATCH_SIZE threadIds" uid]
    show ?thesis using False by (subst processThreads.simps) (auto intro: grows_trans)
  qed
qed

lemma processMessage_longer:
  assumes "processMessage en fuel m w = Some (w', r)"
  shows "length (trace w) < length (trace w')"
proof -
  let ?uid = "userId (body m)"
  obtain w1 p where ge: "getExistingThreads en ?uid w = (w1, p)" by (cases "getExistingThreads en ?uid w")
  have l1: "length (trace w1) = Suc (length (trace w))"
    using ge by (auto simp: getExistingThreads_def Let_def split: sum.splits option.splits)
  show ?thesis
  proof (cases p)
    case (Inl e)
    then show ?thesis using assms ge l1 by (simp add: processMessage_def Let_def)
  next
    case (Inr existing)
    then obtain w2 q where fn: "fetchNewThreads en fuel (accessToken (body m)) existing ?uid (''pagination:'' @ ?uid) w1 = Some (w2, q)"
      using assms ge by (auto simp: processMessage_def Let_def split: option.splits)
    have l2: "length (trace w1) \<le> length (trace w2)"
      using grows_fetchNewThreads [OF fn] by (simp add: grows_def)
    show ?thesis
    proof (cases q)
      case (Inl e)
      then show ?thesis using assms ge Inr fn l1 l2 by (simp add: processMessage_def Let_def)
    next
      case (Inr ids)
      have "length (trace w2) \<le> length (trace (processThreads en (accessToken (body m)) ids ?uid w2))"
        using grows_processThreads [of w2] by (simp add: grows_def)
      then show ?thesis using assms ge \<open>p = Inr existing\<close> fn Inr l1 l2
        by (auto simp: processMessage_def Let_def)
    qed
  qed
qed

lemma grows_handleMessageError: "grows w (fst (handleMessageError en m e w))"
  by (auto simp: handleMessageError_def Let_def grows_def split: option.splits)

lemma grows_on_error: "grows w (fst (on_error en m e w))"
  using grows_handleMessageError [of "emit (LogError (''Error processing message: '' @ error_text e)) w" en m "as_Error e"]
  by (simp add: on_error_def grows_def)

lemma attempt_longer:
  assumes "attempt en fuel m w = Some (w', r)"
  shows "length (trace w) < length (trace w')"
proof -
  obtain w1 p where pm: "processMessage en fuel m w = Some (w1, p)"
    using assms by (auto simp: attempt_def split: option.splits)
  have l1: "length (trace w) < length (trace w1)" using processMessage_longer [OF pm] .
  show ?thesis
  proof (cases p)
    case (Inl e)
    then have "w' = fst (on_error en m e w1)" using assms pm by (auto simp: attempt_def)
    then show ?thesis using grows_on_error [of w1 en m e] l1 by (simp add: grows_def)
  next
    case (Inr u)
    show ?thesis
    proof (cases "completeMessage en (trace w1) m")
      case None
      then show ?thesis using assms pm Inr l1 by (auto simp: attempt_def Let_def)
    next
      case (Some e)
      then have "w' = fst (on_error en m e (emit (CompleteMessage m) w1))"
        using assms pm Inr by (auto simp: attempt_def Let_def)
      then show ?thesis using grows_on_error [of "emit (CompleteMessage m) w1" en m e] l1
        by (simp add: grows_def)
    qed
  qed
qed

subsection \<open>The handler and the gate\<close>

lemma attempt_changes_world:
  "attempt en fuel m w = Some (w', r) \<Longrightarrow> w' \<noteq> w"
  using attempt_longer by fastforce

lemma on_message_refused:
  "messageKey m \<in> processingMessages s \<or> MAX_CONCURRENT_MESSAGES \<le> activeProcessingCount s \<Longrightarrow>
   on_message en fuel m s = Some (s, Inr ())"
  by (auto simp: on_message_def Let_def)

lemma on_message_admitted:
  assumes "messageKey m \<notin> processingMessages s" "activeProcessingCount s < MAX_CONCURRENT_MESSAGES"
  shows "on_message en fuel m s =
           (case attempt en fuel m (outside s) of
              None \<Rightarrow> None
            | Some (w, r) \<Rightarrow> Some (s\<lparr>outside := w\<rparr>, r))"
  using assms by (auto simp: on_message_def admit_def release_def Let_def split: option.splits)

lemma on_message_noop_iff:
  "(on_message en fuel m s = Some (s, Inr ())) =
   (messageKey m \<in> processingMessages s \<or> MAX_CONCURRENT_MESSAGES \<le> activeProcessingCount s)"
proof
  assume same: "on_message en fuel m s = Some (s, Inr ())"
  show "messageKey m \<in> processingMessages s \<or> MAX_CONCURRENT_MESSAGES \<le> activeProcessingCount s"
  proof (rule ccontr)
    assume "\<not> ?thesis"
    then have a: "messageKey m \<notin> processingMessages s" "activeProcessingCount s < MAX_CONCURRENT_MESSAGES"
      by auto
    from same on_message_admitted [OF a, of en fuel]
    obtain w r where att: "attempt en fuel m (outside s) = Some (w, r)" and s: "s = s\<lparr>outside := w\<rparr>"
      by (auto split: option.splits)
    from s have "outside s = w" by (metis service.select_convs(3) service.surjective service.update_convs(3))
    with attempt_changes_world [OF att] show False by simp
  qed
next
  assume "messageKey m \<in> processingMessages s \<or> MAX_CONCURRENT_MESSAGES \<le> activeProcessingCount s"
  then show "on_message en fuel m s = Some (s, Inr ())" by (rule on_message_refused)
qed

lemma on_error_trace:
  "\<exists>rest. trace (fst (on_error en m e w)) =
           trace w @ [LogError (''Error processing message: '' @ error_text e),
                      (if delivery_count m < 3 then AbandonMessage m
                       else DeadLetterMessage m ''Max retries exceeded'' (error_text e))] @ rest
         \<and> filter bus_call rest = []"
  by (cases e) (auto simp: on_error_def handleMessageError_def delivery_count_def emit_def Let_def
      split: option.splits)

lemma keys_remove1:
  "distinct (map f xs) \<Longrightarrow> x \<in> set xs \<Longrightarrow>
   set (map f (remove1 x xs)) = set (map f xs) - {f x} \<and> distinct (map f (remove1 x xs))"
proof (induction xs)
  case Nil
  then show ?case by simp
next
  case (Cons a xs)
  show ?case
  proof (cases "x = a")
    case True
    then show ?thesis using Cons.prems by auto
  next
    case False
    then have "x \<in> set xs" using Cons.prems by simp
    moreover have "distinct (map f xs)" using Cons.prems by simp
    ultimately have ih: "set (map f (remove1 x xs)) = set (map f xs) - {f x}" "distinct (map f (remove1 x xs))"
      using Cons.IH by simp_all
    have "f a \<noteq> f x" using Cons.prems \<open>x \<in> set xs\<close> by auto
    then show ?thesis using False ih Cons.prems by auto
  qed
qed

lemma gate_inv_act: "gate_inv x \<Longrightarrow> gate_inv (act a x)"
proof (cases x)
  case (Pair s inflight)
  assume inv: "gate_inv x"
  show ?thesis
  proof (cases a)
    case (Arrive m)
    then show ?thesis using inv Pair
      by (auto simp: gate_inv_def admit_def)
  next
    case (Work w)
    then show ?thesis using inv Pair by (simp add: gate_inv_def)
  next
    case (Finish m)
    show ?thesis
    proof (cases "m \<in> set inflight")
      case False
      then show ?thesis using inv Pair Finish by simp
    next
      case True
      have d: "distinct (map messageKey inflight)" using inv Pair by (simp add: gate_inv_def)
      have "length inflight > 0" using True by (cases inflight) auto
      then have "int (length (remove1 m inflight)) = int (length inflight) - 1"
        using True by (simp add: length_remove1 Suc_leI)
      then show ?thesis using inv Pair Finish True keys_remove1 [OF d True]
        by (simp add: gate_inv_def release_def)
    qed
  qed
qed

lemma gate_inv_run: "gate_inv x \<Longrightarrow> gate_inv (run acts x)"
  unfolding run_def by (induction acts arbitrary: x) (simp_all add: gate_inv_act)

lemma gate_inv_initial: "gate_inv (initial w, [])"
  by (simp add: gate_inv_def initial_def MAX_CONCURRENT_MESSAGES_def)


subsection \<open>Batch fetching and dispatch\<close>

lemma filter_requests:
  assumes "\<And>x. \<not> P (f x)"
  shows "filter P (map f xs) = []"
  using assms by (induction xs) simp_all

lemma fetch_threads_dispatch:
  "filter dispatch_call (trace (fst (fetch_threads en g ids w))) = filter dispatch_call (trace w)"
proof -
  have "filter dispatch_call (map (ThreadsGet g) ids) = []" by (rule filter_requests) simp
  then show ?thesis
    unfolding fetch_threads_split by (simp add: settle_threads_filter request_threads_trace)
qed




lemma get_messages_step:
  "get_messages en g (i # rest) w =
     (fst (get_messages en g rest (emit (MessagesGet g i) w)),
      case messages_get en (trace w) g i of
        Some e \<Rightarrow> Some e
      | None \<Rightarrow> snd (get_messages en g rest (emit (MessagesGet g i) w)))"
  by (cases "get_messages en g rest (emit (MessagesGet g i) w)") (simp add: Let_def split: option.splits)

lemma get_messages_dispatch:
  "filter dispatch_call (trace (fst (get_messages en g ids w))) = filter dispatch_call (trace w)"
proof (induction ids arbitrary: w)
  case Nil
  then show ?case by simp
next
  case (Cons i rest)
  show ?case unfolding get_messages_step fst_conv Cons.IH by simp
qed



lemma batchGetMessages_dispatch:
  "filter dispatch_call (trace (fst (batchGetMessages en g ids w))) = filter dispatch_call (trace w)"
proof -
  obtain w1 r where gm: "get_messages en g ids w = (w1, r)" by (cases "get_messages en g ids w")
  then have "filter dispatch_call (trace w1) = filter dispatch_call (trace w)"
    using get_messages_dispatch [of en g ids w] by simp
  then show ?thesis using gm by (cases r) (simp_all add: batchGetMessages_def)
qed


lemma annotate_each_quiet:
  assumes "\<And>g t u. \<not> P (AnnotateThread g t u)" and "\<And>m. \<not> P (LogError m)"
  shows "filter P (trace (annotate_each en g ids uid w)) = filter P (trace w)"
proof (induction ids arbitrary: w)
  case Nil
  then show ?case by simp
next
  case (Cons t ts)
  show ?case by (simp add: Let_def Cons.IH assms split: option.splits)
qed

lemma processThread_rest_query:
  "filter annotation_query (trace (fst (processThread_rest en t uid answer w)))
     = filter annotation_query (trace w)"
  by (simp add: processThread_rest_def Let_def split: sum.splits option.splits list.splits)

lemma processThread_rest_embedding:
  "filter embedding_call (trace (fst (processThread_rest en t uid answer w)))
     = filter embedding_call (trace w) @ embeddings_due uid [(t, answer)]"
  by (simp add: processThread_rest_def Let_def split: sum.splits option.splits list.splits)

lemma processThread_rest_extends:
  "\<exists>evs. trace (fst (processThread_rest en t uid answer w)) = trace w @ evs"
  by (simp add: processThread_rest_def Let_def split: sum.splits option.splits list.splits)

lemma processThread_rest_failure:
  "set (query_failures [(t, answer)]) \<subseteq> set (trace (fst (processThread_rest en t uid answer w)))"
  by (simp add: processThread_rest_def Let_def split: sum.splits option.splits list.splits)

lemma processThread_rest_rejection:
  "processThread_rest en t uid answer w = (w', Inl x) \<Longrightarrow>
   \<exists>evs. trace w' = trace w @ evs @ [LogError (''Error processing thread '' @ t @ '': '' @ error_text x)]"
  by (auto simp: processThread_rest_def Let_def split: sum.splits option.splits list.splits)

text \<open>The world after the continuation of one thread and its \<^verbatim>\<open>.catch\<close>.\<close>

lemma finish_one:
  fixes en t uid answer w
  defines "w1 \<equiv> (case processThread_rest en t uid answer w of
                 (v, Inr u) \<Rightarrow> v
               | (v, Inl e) \<Rightarrow>
                   (case message_of e of
                      Inr m \<Rightarrow> emit (LogError (''Failed to process thread '' @ t @ '': '' @ m)) v
                    | Inl x \<Rightarrow> v))"
  shows "filter annotation_query (trace w1) = filter annotation_query (trace w)"
    and "filter embedding_call (trace w1) = filter embedding_call (trace w) @ embeddings_due uid [(t, answer)]"
    and "set (query_failures [(t, answer)]) \<subseteq> set (trace w1)"
    and "\<exists>evs. trace w1 = trace w @ evs"
proof -
  obtain v r where pr: "processThread_rest en t uid answer w = (v, r)"
    by (cases "processThread_rest en t uid answer w")
  have q: "filter annotation_query (trace v) = filter annotation_query (trace w)"
    using processThread_rest_query [of en t uid answer w] pr by simp
  have e: "filter embedding_call (trace v) = filter embedding_call (trace w) @ embeddings_due uid [(t, answer)]"
    using processThread_rest_embedding [of en t uid answer w] pr by simp
  have f: "set (query_failures [(t, answer)]) \<subseteq> set (trace v)"
    using processThread_rest_failure [where en = en and t = t and uid = uid and answer = answer and w = w] pr
    by simp
  obtain evs where x: "trace v = trace w @ evs"
    using processThread_rest_extends [of en t uid answer w] pr by auto
  have w1: "w1 = v \<or> (\<exists>m. w1 = emit (LogError m) v)"
    unfolding w1_def using pr by (auto split: sum.splits)
  from w1 q show "filter annotation_query (trace w1) = filter annotation_query (trace w)" by auto
  from w1 e show "filter embedding_call (trace w1) = filter embedding_call (trace w) @ embeddings_due uid [(t, answer)]"
    by auto
  from w1 f show "set (query_failures [(t, answer)]) \<subseteq> set (trace w1)" by auto
  from w1 x show "\<exists>evs. trace w1 = trace w @ evs" by auto
qed

lemma finish_threads_extends:
  "\<exists>evs. trace (fst (finish_threads en uid answers w)) = trace w @ evs"
proof (induction answers arbitrary: w)
  case Nil
  then show ?case by simp
next
  case (Cons p rest)
  obtain t answer where p: "p = (t, answer)" by (cases p)
  let ?w1 = "case processThread_rest en t uid answer w of
                 (v, Inr u) \<Rightarrow> v
               | (v, Inl e) \<Rightarrow>
                   (case message_of e of
                      Inr m \<Rightarrow> emit (LogError (''Failed to process thread '' @ t @ '': '' @ m)) v
                    | Inl x \<Rightarrow> v)"
  obtain evs1 where a: "trace ?w1 = trace w @ evs1"
    using finish_one(4) [where en = en and t = t and uid = uid and answer = answer and w = w] by (elim exE)
  obtain evs2 where b: "trace (fst (finish_threads en uid rest ?w1)) = trace ?w1 @ evs2"
    using Cons.IH [of ?w1] by (elim exE)
  have "trace (fst (finish_threads en uid rest ?w1)) = trace w @ (evs1 @ evs2)"
    unfolding b a by simp
  then show ?case unfolding p finish_threads_step by (rule exI)
qed

lemma finish_threads_query:
  "filter annotation_query (trace (fst (finish_threads en uid answers w))) = filter annotation_query (trace w)"
proof (induction answers arbitrary: w)
  case Nil
  then show ?case by simp
next
  case (Cons p rest)
  obtain t answer where p: "p = (t, answer)" by (cases p)
  show ?case unfolding p finish_threads_step Cons.IH by (rule finish_one(1))
qed

lemma embeddings_due_Cons:
  "embeddings_due uid (p # rest) = embeddings_due uid [p] @ embeddings_due uid rest"
  by (cases p) simp

lemma query_failures_Cons:
  "query_failures (p # rest) = query_failures [p] @ query_failures rest"
  by (cases p) simp

lemma finish_threads_embedding:
  "filter embedding_call (trace (fst (finish_threads en uid answers w)))
     = filter embedding_call (trace w) @ embeddings_due uid answers"
proof (induction answers arbitrary: w)
  case Nil
  then show ?case by simp
next
  case (Cons p rest)
  obtain t answer where p: "p = (t, answer)" by (cases p)
  show ?case
    unfolding p finish_threads_step Cons.IH finish_one(2)
    by (subst (2) embeddings_due_Cons) simp
qed

lemma finish_threads_failures:
  "set (query_failures answers) \<subseteq> set (trace (fst (finish_threads en uid answers w)))"
proof (induction answers arbitrary: w)
  case Nil
  then show ?case by simp
next
  case (Cons p rest)
  obtain t answer where p: "p = (t, answer)" by (cases p)
  let ?w1 = "case processThread_rest en t uid answer w of
                 (v, Inr u) \<Rightarrow> v
               | (v, Inl e) \<Rightarrow>
                   (case message_of e of
                      Inr m \<Rightarrow> emit (LogError (''Failed to process thread '' @ t @ '': '' @ m)) v
                    | Inl x \<Rightarrow> v)"
  obtain evs where x: "trace (fst (finish_threads en uid rest ?w1)) = trace ?w1 @ evs"
    using finish_threads_extends by blast
  have a: "set (query_failures [(t, answer)]) \<subseteq> set (trace (fst (finish_threads en uid rest ?w1)))"
    using finish_one(3) [where en = en and t = t and uid = uid and answer = answer and w = w] x by auto
  have b: "set (query_failures rest) \<subseteq> set (trace (fst (finish_threads en uid rest ?w1)))"
    by (rule Cons.IH)
  have "set (query_failures ((t, answer) # rest))
          = set (query_failures [(t, answer)]) \<union> set (query_failures rest)"
    by (subst query_failures_Cons) simp
  then show ?case unfolding p finish_threads_step using a b by simp
qed

lemma start_threads_answers:
  "list_all2 (\<lambda>t p. fst p = t \<and> (\<exists>h. snd p = annotations_select en h t uid))
     ids (snd (start_threads en ids uid w))"
proof (induction ids arbitrary: w)
  case Nil
  then show ?case by simp
next
  case (Cons t ts)
  have "snd (start_threads en (t # ts) uid w)
          = (t, annotations_select en (trace w) t uid)
              # snd (start_threads en ts uid (emit (SelectAnnotations t uid) w))"
    by (simp add: Let_def split: prod.splits)
  moreover have "\<exists>h. snd (t, annotations_select en (trace w) t uid) = annotations_select en h t uid"
    by (rule exI [of _ "trace w"]) simp
  ultimately show ?case using Cons.IH by simp
qed

lemma embed_all_query:
  "filter annotation_query (trace (fst (embed_all en ids uid w)))
     = filter annotation_query (trace w) @ map (\<lambda>t. SelectAnnotations t uid) ids"
proof -
  have "filter annotation_query (map (\<lambda>t. SelectAnnotations t uid) ids) = map (\<lambda>t. SelectAnnotations t uid) ids"
    by (induction ids) simp_all
  then show ?thesis
    unfolding embed_all_split finish_threads_query by (simp add: start_threads_trace)
qed

lemma embed_all_embedding:
  "filter embedding_call (trace (fst (embed_all en ids uid w)))
     = filter embedding_call (trace w) @ embeddings_due uid (snd (start_threads en ids uid w))"
proof -
  have "filter embedding_call (map (\<lambda>t. SelectAnnotations t uid) ids) = []"
    by (rule filter_requests) simp
  then show ?thesis
    unfolding embed_all_split finish_threads_embedding by (simp add: start_threads_trace)
qed

lemma embed_all_failures:
  "set (query_failures (snd (start_threads en ids uid w))) \<subseteq> set (trace (fst (embed_all en ids uid w)))"
  unfolding embed_all_split by (rule finish_threads_failures)

lemma failures_logged_append:
  "failures_logged en c h xs \<Longrightarrow> failures_logged en c (h @ xs) ys \<Longrightarrow> failures_logged en c h (xs @ ys)"
proof (induction xs arbitrary: h)
  case Nil
  then show ?case by simp
next
  case (Cons ev evs)
  have a: "failures_logged en c (h @ [ev]) evs" using Cons.prems(1) by simp
  have b: "failures_logged en c ((h @ [ev]) @ evs) ys" using Cons.prems(2) by simp
  have r: "failures_logged en c (h @ [ev]) (evs @ ys)" using Cons.IH [OF a b] .
  show ?case using Cons.prems(1) r
    by (cases ev) (auto split: option.splits sum.splits)
qed

lemma failures_logged_quiet:
  "\<forall>ev \<in> set xs. \<not> embedding_call ev \<Longrightarrow> failures_logged en c h xs"
proof (induction xs arbitrary: h)
  case Nil
  then show ?case by simp
next
  case (Cons ev evs)
  then show ?case by (cases ev) simp_all
qed

lemma finish_one_logged:
  fixes en t uid answer w
  defines "w1 \<equiv> (case processThread_rest en t uid answer w of
                 (v, Inr u) \<Rightarrow> v
               | (v, Inl e) \<Rightarrow>
                   (case message_of e of
                      Inr m \<Rightarrow> emit (LogError (''Failed to process thread '' @ t @ '': '' @ m)) v
                    | Inl x \<Rightarrow> v))"
  assumes c: "\<forall>e x. snd (processThread_rest en t uid answer w) = Inl e \<and> message_of e = Inl x \<longrightarrow> c"
  shows "\<exists>evs. trace w1 = trace w @ evs \<and> failures_logged en c (trace w) evs"
  using c unfolding w1_def processThread_rest_def Let_def
  by (auto split: sum.splits option.splits list.splits)

lemma finish_threads_rejects:
  "snd (finish_threads en uid rest
          (case processThread_rest en t uid answer w of
                 (v, Inr u) \<Rightarrow> v
               | (v, Inl e) \<Rightarrow>
                   (case message_of e of
                      Inr m \<Rightarrow> emit (LogError (''Failed to process thread '' @ t @ '': '' @ m)) v
                    | Inl x \<Rightarrow> v))) \<noteq> None
   \<Longrightarrow> snd (finish_threads en uid ((t, answer) # rest) w) \<noteq> None"
  by (auto split: prod.splits sum.splits)

lemma finish_threads_rejects_head:
  "snd (processThread_rest en t uid answer w) = Inl e \<Longrightarrow> message_of e = Inl x
   \<Longrightarrow> snd (finish_threads en uid ((t, answer) # rest) w) \<noteq> None"
  by (auto split: prod.splits sum.splits)

lemma finish_threads_logged:
  "(snd (finish_threads en uid answers w) \<noteq> None \<longrightarrow> c)
   \<Longrightarrow> \<exists>evs. trace (fst (finish_threads en uid answers w)) = trace w @ evs
            \<and> failures_logged en c (trace w) evs"
proof (induction answers arbitrary: w)
  case Nil
  then show ?case by simp
next
  case (Cons p rest)
  obtain t answer where p: "p = (t, answer)" by (cases p)
  let ?w1 = "case processThread_rest en t uid answer w of
                 (v, Inr u) \<Rightarrow> v
               | (v, Inl e) \<Rightarrow>
                   (case message_of e of
                      Inr m \<Rightarrow> emit (LogError (''Failed to process thread '' @ t @ '': '' @ m)) v
                    | Inl x \<Rightarrow> v)"
  have h: "\<forall>e x. snd (processThread_rest en t uid answer w) = Inl e \<and> message_of e = Inl x \<longrightarrow> c"
  proof (intro allI impI, elim conjE)
    fix e x
    assume "snd (processThread_rest en t uid answer w) = Inl e" "message_of e = Inl x"
    then have "snd (finish_threads en uid ((t, answer) # rest) w) \<noteq> None"
      by (rule finish_threads_rejects_head)
    then show c using Cons.prems unfolding p by simp
  qed
  obtain evs1 where a: "trace ?w1 = trace w @ evs1" and a': "failures_logged en c (trace w) evs1"
    using finish_one_logged [where en = en and t = t and uid = uid and answer = answer and w = w and c = c, OF h]
    by (elim exE conjE)
  have r: "snd (finish_threads en uid rest ?w1) \<noteq> None \<longrightarrow> c"
  proof
    assume "snd (finish_threads en uid rest ?w1) \<noteq> None"
    then have "snd (finish_threads en uid ((t, answer) # rest) w) \<noteq> None"
      by (rule finish_threads_rejects)
    then show c using Cons.prems unfolding p by simp
  qed
  obtain evs2 where b: "trace (fst (finish_threads en uid rest ?w1)) = trace ?w1 @ evs2"
      and b': "failures_logged en c (trace ?w1) evs2"
    using Cons.IH [of ?w1, OF r] by (elim exE conjE)
  have "failures_logged en c (trace w) (evs1 @ evs2)"
    using a' b' unfolding a by (rule failures_logged_append)
  moreover have "trace (fst (finish_threads en uid rest ?w1)) = trace w @ (evs1 @ evs2)"
    unfolding b a by simp
  ultimately have "trace (fst (finish_threads en uid rest ?w1)) = trace w @ (evs1 @ evs2)
      \<and> failures_logged en c (trace w) (evs1 @ evs2)" by simp
  then show ?case unfolding p finish_threads_step by (rule exI)
qed

lemma embed_all_logged:
  assumes "snd (embed_all en ids uid w) \<noteq> None \<longrightarrow> c"
  shows "\<exists>evs. trace (fst (embed_all en ids uid w)) = trace w @ evs \<and> failures_logged en c (trace w) evs"
proof -
  let ?s = "start_threads en ids uid w"
  let ?q = "map (\<lambda>t. SelectAnnotations t uid) ids"
  have s: "trace (fst ?s) = trace w @ ?q" by (rule start_threads_trace)
  have q: "failures_logged en c (trace w) ?q" by (rule failures_logged_quiet) auto
  have "snd (finish_threads en uid (snd ?s) (fst ?s)) \<noteq> None \<longrightarrow> c"
    using assms unfolding embed_all_split .
  from finish_threads_logged [OF this]
  obtain evs where a: "trace (fst (finish_threads en uid (snd ?s) (fst ?s))) = trace (fst ?s) @ evs"
    and b: "failures_logged en c (trace (fst ?s)) evs"
    by (elim exE conjE)
  have "failures_logged en c (trace w) (?q @ evs)"
    using q b unfolding s by (rule failures_logged_append)
  moreover have "trace (fst (embed_all en ids uid w)) = trace w @ (?q @ evs)"
    unfolding embed_all_split a s by simp
  ultimately have "trace (fst (embed_all en ids uid w)) = trace w @ (?q @ evs)
     \<and> failures_logged en c (trace w) (?q @ evs)" by simp
  then show ?thesis by (rule exI)
qed

lemma failures_logged_caught:
  "failures_logged en c h evs \<Longrightarrow> failures_logged en (c \<or> d) h evs"
proof (induction evs arbitrary: h)
  case Nil
  then show ?case by simp
next
  case (Cons ev evs)
  then show ?case by (cases ev) (auto split: option.splits sum.splits)
qed

lemma slice_logged:
  "\<exists>evs. trace (case embed_all en ids uid w of
                   (w4, Some e) \<Rightarrow> emit (LogError (''Error processing batch of threads: '' @ error_text e)) w4
                 | (w4, None) \<Rightarrow> w4) = trace w @ evs
         \<and> failures_logged en (list_ex slice_catch evs) (trace w) evs"
proof (cases "snd (embed_all en ids uid w)")
  case None
  then have "snd (embed_all en ids uid w) \<noteq> None \<longrightarrow> False" by simp
  from embed_all_logged [OF this]
  obtain evs where a: "trace (fst (embed_all en ids uid w)) = trace w @ evs"
    and b: "failures_logged en False (trace w) evs" by (elim exE conjE)
  have "failures_logged en (False \<or> list_ex slice_catch evs) (trace w) evs"
    using b by (rule failures_logged_caught)
  then have "failures_logged en (list_ex slice_catch evs) (trace w) evs" by simp
  moreover have "trace (case embed_all en ids uid w of
                   (w4, Some e) \<Rightarrow> emit (LogError (''Error processing batch of threads: '' @ error_text e)) w4
                 | (w4, None) \<Rightarrow> w4) = trace w @ evs"
    using None a by (cases "embed_all en ids uid w") simp
  ultimately show ?thesis by blast
next
  case (Some x)
  let ?l = "LogError (''Error processing batch of threads: '' @ error_text x)"
  have "snd (embed_all en ids uid w) \<noteq> None \<longrightarrow> True" by simp
  from embed_all_logged [OF this]
  obtain evs where a: "trace (fst (embed_all en ids uid w)) = trace w @ evs"
    and b: "failures_logged en True (trace w) evs" by (elim exE conjE)
  have sc: "slice_catch ?l" by simp
  then have le: "list_ex slice_catch (evs @ [?l])" by (simp add: list_ex_iff)
  have "failures_logged en True (trace w @ evs) [?l]" by simp
  with b have "failures_logged en True (trace w) (evs @ [?l])" by (rule failures_logged_append)
  then have "failures_logged en (list_ex slice_catch (evs @ [?l])) (trace w) (evs @ [?l])"
    using le by simp
  moreover have "trace (case embed_all en ids uid w of
                   (w4, Some e) \<Rightarrow> emit (LogError (''Error processing batch of threads: '' @ error_text e)) w4
                 | (w4, None) \<Rightarrow> w4) = trace w @ (evs @ [?l])"
    using Some a by (cases "embed_all en ids uid w") simp
  ultimately show ?thesis by blast
qed

lemma query_within_dispatch:
  "filter annotation_query (filter dispatch_call xs) = filter annotation_query xs"
proof (induction xs)
  case Nil
  then show ?case by simp
next
  case (Cons x xs)
  then show ?case by (cases x) simp_all
qed

lemma embedding_within_dispatch:
  "filter embedding_call (filter dispatch_call xs) = filter embedding_call xs"
proof (induction xs)
  case Nil
  then show ?case by simp
next
  case (Cons x xs)
  then show ?case by (cases x) simp_all
qed

lemma query_unchanged:
  "filter dispatch_call (trace w') = filter dispatch_call (trace w) \<Longrightarrow>
   filter annotation_query (trace w') = filter annotation_query (trace w)"
proof -
  assume "filter dispatch_call (trace w') = filter dispatch_call (trace w)"
  then have "filter annotation_query (filter dispatch_call (trace w'))
               = filter annotation_query (filter dispatch_call (trace w))" by simp
  then show ?thesis unfolding query_within_dispatch .
qed

lemma embedding_unchanged:
  "filter dispatch_call (trace w') = filter dispatch_call (trace w) \<Longrightarrow>
   filter embedding_call (trace w') = filter embedding_call (trace w)"
proof -
  assume "filter dispatch_call (trace w') = filter dispatch_call (trace w)"
  then have "filter embedding_call (filter dispatch_call (trace w'))
               = filter embedding_call (filter dispatch_call (trace w))" by simp
  then show ?thesis unfolding embedding_within_dispatch .
qed

lemma snd_the: "snd x = r \<Longrightarrow> x = (fst x, r)"
  by (cases x) simp

section \<open>Properties of the pipeline\<close>

text \<open>
  \<^bold>\<open>C1\<close> (postcondition of \<open>fetchNewThreads\<close>). When the cap of 500 minus the number of
  already-processed identifiers is not positive, the function returns at once, for any
  fuel: the only call it has made is the read of the cursor, so no page of the mailbox
  is listed, and its result is the empty list (or the rejection of that read, which
  precedes the check). When the difference is positive and the function returns a list,
  the list shares no identifier with the already-processed ones, has no duplicates and
  is no longer than the difference.
\<close>

theorem fetchNewThreads_postcondition:
  "(MAX_THREADS_PER_USER - int (length existing) \<le> 0 \<longrightarrow>
      fetchNewThreads en fuel g existing uid key w =
        Some (emit (RedisGet key) w,
              case redis_command en (trace w) of None \<Rightarrow> Inr [] | Some e \<Rightarrow> Inl e))
 \<and> (0 < MAX_THREADS_PER_USER - int (length existing) \<and>
     fetchNewThreads en fuel g existing uid key w = Some (w', Inr ids) \<longrightarrow>
      set ids \<inter> set existing = {} \<and> distinct ids \<and>
      int (length ids) \<le> MAX_THREADS_PER_USER - int (length existing))"
proof (intro conjI impI)
  assume "MAX_THREADS_PER_USER - int (length existing) \<le> 0"
  then show "fetchNewThreads en fuel g existing uid key w =
        Some (emit (RedisGet key) w,
              case redis_command en (trace w) of None \<Rightarrow> Inr [] | Some e \<Rightarrow> Inl e)"
    by (rule fetchNewThreads_at_cap)
next
  let ?rem = "MAX_THREADS_PER_USER - int (length existing)"
  assume a: "0 < ?rem \<and> fetchNewThreads en fuel g existing uid key w = Some (w', Inr ids)"
  then have pos: "0 < ?rem" and ok: "fetchNewThreads en fuel g existing uid key w = Some (w', Inr ids)"
    by simp_all
  from ok obtain tok0 w1 w2 tok where d: "discover en g ?rem existing fuel tok0 [] w1 = Some (w2, Inr (tok, ids))"
    unfolding fetchNewThreads_below_cap [OF pos]
    by (auto split: option.splits sum.splits prod.splits)
  have "fresh ?rem existing []" using pos by (simp add: fresh_def)
  from discover_fresh [OF d this]
  have f: "fresh ?rem existing ids" .
  from f show "set ids \<inter> set existing = {}" by (simp add: fresh_def)
  from f show "distinct ids" by (simp add: fresh_def)
  from f show "int (length ids) \<le> ?rem" by (simp add: fresh_def)
qed

lemma cap_run:
  "map_option snd (fetchNewThreads calm 5 ''tok'' (replicate 498 ''t1'') ''u'' ''pagination:u'' w0)
     = Some (Inr [''t2'', ''t3''])"
  by code_simp

text \<open>
  At the cap (500 identifiers processed) nothing is listed even with no fuel; with 498
  processed, two new identifiers are returned and the third page is never requested.
\<close>

theorem fetchNewThreads_postcondition_witness:
  "fetchNewThreads calm 0 ''tok'' (replicate 500 ''x'') ''u'' ''pagination:u'' w0
     = Some (emit (RedisGet ''pagination:u'') w0, Inr []) \<and>
   map_option snd (fetchNewThreads calm 5 ''tok'' (replicate 498 ''t1'') ''u'' ''pagination:u'' w0)
     = Some (Inr [''t2'', ''t3'']) \<and>
   set [''t2'', ''t3''] \<inter> set (replicate 498 ''t1'') = {} \<and>
   distinct [''t2'', ''t3''] \<and>
   int (length [''t2'', ''t3'']) \<le> MAX_THREADS_PER_USER - int (length (replicate 498 ''t1''))"
proof -
  let ?w' = "fst (the (fetchNewThreads calm 5 ''tok'' (replicate 498 ''t1'') ''u'' ''pagination:u'' w0))"
  have full: "MAX_THREADS_PER_USER - int (length (replicate 500 ''x'')) \<le> 0"
    by (simp add: MAX_THREADS_PER_USER_def)
  have room: "0 < MAX_THREADS_PER_USER - int (length (replicate 498 ''t1''))"
    by (simp add: MAX_THREADS_PER_USER_def)
  have quiet: "redis_command calm (trace w0) = None" by (simp add: calm_def)
  have ok: "fetchNewThreads calm 5 ''tok'' (replicate 498 ''t1'') ''u'' ''pagination:u'' w0
              = Some (?w', Inr [''t2'', ''t3''])"
    using cap_run by (rule Some_the)
  from fetchNewThreads_postcondition
         [of "replicate 500 ''x''" calm 0 "''tok''" "''u''" "''pagination:u''" w0] full quiet
  have a: "fetchNewThreads calm 0 ''tok'' (replicate 500 ''x'') ''u'' ''pagination:u'' w0
     = Some (emit (RedisGet ''pagination:u'') w0, Inr [])"
    by simp
  from fetchNewThreads_postcondition
         [of "replicate 498 ''t1''" calm 5 "''tok''" "''u''" "''pagination:u''" w0 ?w' "[''t2'', ''t3'']"]
       room ok
  have b: "set [''t2'', ''t3''] \<inter> set (replicate 498 ''t1'') = {} \<and>
           distinct [''t2'', ''t3''] \<and>
           int (length [''t2'', ''t3'']) \<le> MAX_THREADS_PER_USER - int (length (replicate 498 ''t1''))"
    by blast
  show ?thesis using a cap_run b by (intro conjI) blast+
qed





text \<open>
  \<^bold>\<open>C3\<close> (retry or dead-letter). When processing a message fails, be it
  \<open>processMessage\<close> or the completion call that rejects with \<open>e\<close>, the handler logs the
  error and then makes exactly one further bus call: it abandons the message when its
  delivery count is below 3, and otherwise dead-letters it with the reason
  \<open>Max retries exceeded\<close> and the description of \<open>e\<close>.
\<close>

theorem failure_settlement:
  "(processMessage en fuel m w = Some (w1, Inl e) \<longrightarrow>
      (\<exists>w' r rest. attempt en fuel m w = Some (w', r) \<and>
          trace w' = trace w1 @ [LogError (''Error processing message: '' @ error_text e),
                                 (if delivery_count m < 3 then AbandonMessage m
                                  else DeadLetterMessage m ''Max retries exceeded'' (error_text e))] @ rest \<and>
          filter bus_call rest = []))
 \<and> (processMessage en fuel m w = Some (w1, Inr ()) \<and> completeMessage en (trace w1) m = Some e \<longrightarrow>
      (\<exists>w' r rest. attempt en fuel m w = Some (w', r) \<and>
          trace w' = trace w1 @ [CompleteMessage m,
                                 LogError (''Error processing message: '' @ error_text e),
                                 (if delivery_count m < 3 then AbandonMessage m
                                  else DeadLetterMessage m ''Max retries exceeded'' (error_text e))] @ rest \<and>
          filter bus_call rest = []))"
proof (intro conjI impI)
  assume pm: "processMessage en fuel m w = Some (w1, Inl e)"
  obtain rest where r: "trace (fst (on_error en m e w1)) =
           trace w1 @ [LogError (''Error processing message: '' @ error_text e),
                      (if delivery_count m < 3 then AbandonMessage m
                       else DeadLetterMessage m ''Max retries exceeded'' (error_text e))] @ rest"
       "filter bus_call rest = []"
    using on_error_trace [of en m e w1] by blast
  have "attempt en fuel m w = Some (fst (on_error en m e w1), snd (on_error en m e w1))"
    using pm by (simp add: attempt_def)
  with r show "\<exists>w' r rest. attempt en fuel m w = Some (w', r) \<and>
          trace w' = trace w1 @ [LogError (''Error processing message: '' @ error_text e),
                                 (if delivery_count m < 3 then AbandonMessage m
                                  else DeadLetterMessage m ''Max retries exceeded'' (error_text e))] @ rest \<and>
          filter bus_call rest = []" by blast
next
  assume "processMessage en fuel m w = Some (w1, Inr ()) \<and> completeMessage en (trace w1) m = Some e"
  then have pm: "processMessage en fuel m w = Some (w1, Inr ())" and cm: "completeMessage en (trace w1) m = Some e"
    by simp_all
  let ?w2 = "emit (CompleteMessage m) w1"
  obtain rest where r: "trace (fst (on_error en m e ?w2)) =
           trace ?w2 @ [LogError (''Error processing message: '' @ error_text e),
                      (if delivery_count m < 3 then AbandonMessage m
                       else DeadLetterMessage m ''Max retries exceeded'' (error_text e))] @ rest"
       "filter bus_call rest = []"
    using on_error_trace [of en m e ?w2] by blast
  have "attempt en fuel m w = Some (fst (on_error en m e ?w2), snd (on_error en m e ?w2))"
    using pm cm by (simp add: attempt_def Let_def)
  moreover have "trace ?w2 = trace w1 @ [CompleteMessage m]" by (simp add: emit_def)
  ultimately have "attempt en fuel m w = Some (fst (on_error en m e ?w2), snd (on_error en m e ?w2)) \<and>
          trace (fst (on_error en m e ?w2)) = trace w1 @ [CompleteMessage m,
                                 LogError (''Error processing message: '' @ error_text e),
                                 (if delivery_count m < 3 then AbandonMessage m
                                  else DeadLetterMessage m ''Max retries exceeded'' (error_text e))] @ rest \<and>
          filter bus_call rest = []"
    using r by simp
  then show "\<exists>w' r rest. attempt en fuel m w = Some (w', r) \<and>
          trace w' = trace w1 @ [CompleteMessage m,
                                 LogError (''Error processing message: '' @ error_text e),
                                 (if delivery_count m < 3 then AbandonMessage m
                                  else DeadLetterMessage m ''Max retries exceeded'' (error_text e))] @ rest \<and>
          filter bus_call rest = []"
    by blast
qed

lemma flaky_fails:
  "map_option snd (processMessage flaky 5 (msg 4) w0) = Some (Inl (ErrorObj ''rate limit''))"
  by code_simp

lemma unsettled_processes:
  "map_option snd (processMessage unsettled 5 (msg 0) w0) = Some (Inr ())"
  by code_simp

text \<open>
  A message delivered with count 4 whose page fetch fails is dead-lettered; a message
  with count 0 whose completion is refused is abandoned.
\<close>

theorem failure_settlement_witness:
  "(\<exists>w1 w' r rest.
      processMessage flaky 5 (msg 4) w0 = Some (w1, Inl (ErrorObj ''rate limit'')) \<and>
      attempt flaky 5 (msg 4) w0 = Some (w', r) \<and>
      trace w' = trace w1 @ [LogError ''Error processing message: rate limit'',
                             DeadLetterMessage (msg 4) ''Max retries exceeded'' ''rate limit''] @ rest \<and>
      filter bus_call rest = [])
 \<and> (\<exists>w1 w' r rest.
      processMessage unsettled 5 (msg 0) w0 = Some (w1, Inr ()) \<and>
      completeMessage unsettled (trace w1) (msg 0) = Some (ThrownValue ''lock lost'' ''undefined'') \<and>
      attempt unsettled 5 (msg 0) w0 = Some (w', r) \<and>
      trace w' = trace w1 @ [CompleteMessage (msg 0), LogError ''Error processing message: lock lost'',
                             AbandonMessage (msg 0)] @ rest \<and>
      filter bus_call rest = [])"
proof (intro conjI)
  let ?w1 = "fst (the (processMessage flaky 5 (msg 4) w0))"
  have h: "processMessage flaky 5 (msg 4) w0 = Some (?w1, Inl (ErrorObj ''rate limit''))"
    using flaky_fails by (rule Some_the)
  have d: "\<not> delivery_count (msg 4) < 3" by (simp add: delivery_count_def msg_def)
  from failure_settlement [of flaky 5 "msg 4" w0 ?w1 "ErrorObj ''rate limit''"] h d
  show "\<exists>w1 w' r rest.
      processMessage flaky 5 (msg 4) w0 = Some (w1, Inl (ErrorObj ''rate limit'')) \<and>
      attempt flaky 5 (msg 4) w0 = Some (w', r) \<and>
      trace w' = trace w1 @ [LogError ''Error processing message: rate limit'',
                             DeadLetterMessage (msg 4) ''Max retries exceeded'' ''rate limit''] @ rest \<and>
      filter bus_call rest = []"
    by auto
next
  let ?w1 = "fst (the (processMessage unsettled 5 (msg 0) w0))"
  have h: "processMessage unsettled 5 (msg 0) w0 = Some (?w1, Inr ())"
    using unsettled_processes by (rule Some_the)
  have c: "completeMessage unsettled (trace ?w1) (msg 0) = Some (ThrownValue ''lock lost'' ''undefined'')"
    by (simp add: unsettled_def)
  have d: "delivery_count (msg 0) < 3" by (simp add: delivery_count_def msg_def)
  from failure_settlement [of unsettled 5 "msg 0" w0 ?w1 "ThrownValue ''lock lost'' ''undefined''"] h c d
  show "\<exists>w1 w' r rest.
      processMessage unsettled 5 (msg 0) w0 = Some (w1, Inr ()) \<and>
      completeMessage unsettled (trace w1) (msg 0) = Some (ThrownValue ''lock lost'' ''undefined'') \<and>
      attempt unsettled 5 (msg 0) w0 = Some (w', r) \<and>
      trace w' = trace w1 @ [CompleteMessage (msg 0), LogError ''Error processing message: lock lost'',
                             AbandonMessage (msg 0)] @ rest \<and>
      filter bus_call rest = []"
    by auto
qed

text \<open>
  \<^bold>\<open>C4\<close> (refusal). The handler returns with the service and the world outside
  exactly as they were (no counter or set change, no cursor command, no query, no bus
  call, no log line) if and only if the message's key is already in flight or the active
  count is not below the limit; in a state the process can reach, that is: the count is
  at the limit. In every other case it processes the message, which leaves at least one
  call in the trace.
\<close>

theorem admission_refused_iff:
  "((on_message en fuel m s = Some (s, Inr ())) =
    (messageKey m \<in> processingMessages s \<or> MAX_CONCURRENT_MESSAGES \<le> activeProcessingCount s))
 \<and> ((on_message en fuel m (fst (run acts (initial w, []))) = Some (fst (run acts (initial w, [])), Inr ())) =
    (messageKey m \<in> processingMessages (fst (run acts (initial w, []))) \<or>
     activeProcessingCount (fst (run acts (initial w, []))) = MAX_CONCURRENT_MESSAGES))"
proof -
  have general: "(on_message en fuel m t = Some (t, Inr ())) =
    (messageKey m \<in> processingMessages t \<or> MAX_CONCURRENT_MESSAGES \<le> activeProcessingCount t)" for t
    by (rule on_message_noop_iff)
  obtain t inflight where r: "run acts (initial w, []) = (t, inflight)"
    by (cases "run acts (initial w, [])")
  have "gate_inv (t, inflight)" using gate_inv_run [OF gate_inv_initial, of acts w] r by simp
  then have "activeProcessingCount t \<le> MAX_CONCURRENT_MESSAGES" by (simp add: gate_inv_def)
  then have "(MAX_CONCURRENT_MESSAGES \<le> activeProcessingCount t) =
             (activeProcessingCount t = MAX_CONCURRENT_MESSAGES)" by auto
  with general [of t] r
  have "(on_message en fuel m (fst (run acts (initial w, []))) = Some (fst (run acts (initial w, [])), Inr ())) =
    (messageKey m \<in> processingMessages (fst (run acts (initial w, []))) \<or>
     activeProcessingCount (fst (run acts (initial w, []))) = MAX_CONCURRENT_MESSAGES)"
    by simp
  with general [of s] show ?thesis by (rule conjI)
qed

text \<open>
  A duplicate of a message in flight is refused; the same message on an idle service is
  not; after the burst, with ten invocations in flight, it is refused again.
\<close>

lemma burst_count: "activeProcessingCount (fst (run burst (initial w0, []))) = 10"
  by code_simp

theorem admission_refused_iff_witness:
  "on_message calm 5 (msg 0) (admit ''m-1'' (initial w0)) = Some (admit ''m-1'' (initial w0), Inr ()) \<and>
   on_message calm 5 (msg 0) (initial w0) \<noteq> Some (initial w0, Inr ()) \<and>
   on_message calm 5 (msg 0) (fst (run burst (initial w0, []))) = Some (fst (run burst (initial w0, [])), Inr ())"
proof -
  have a: "messageKey (msg 0) \<in> processingMessages (admit ''m-1'' (initial w0))"
    by (simp add: messageKey_def msg_def admit_def)
  have b: "\<not> (messageKey (msg 0) \<in> processingMessages (initial w0) \<or>
              MAX_CONCURRENT_MESSAGES \<le> activeProcessingCount (initial w0))"
    by (simp add: initial_def MAX_CONCURRENT_MESSAGES_def)
  have c: "activeProcessingCount (fst (run burst (initial w0, []))) = MAX_CONCURRENT_MESSAGES"
    using burst_count by (simp add: MAX_CONCURRENT_MESSAGES_def)
  note t1 = admission_refused_iff [of calm 5 "msg 0" "admit ''m-1'' (initial w0)" burst w0, THEN conjunct1]
  note t2 = admission_refused_iff [of calm 5 "msg 0" "initial w0" burst w0, THEN conjunct1]
  note t3 = admission_refused_iff [of calm 5 "msg 0" "initial w0" burst w0, THEN conjunct2]
  have "on_message calm 5 (msg 0) (admit ''m-1'' (initial w0)) = Some (admit ''m-1'' (initial w0), Inr ())"
    using t1 a by simp
  moreover have "on_message calm 5 (msg 0) (initial w0) \<noteq> Some (initial w0, Inr ())"
    using t2 b by simp
  moreover have "on_message calm 5 (msg 0) (fst (run burst (initial w0, [])))
                   = Some (fst (run burst (initial w0, [])), Inr ())"
    using t3 c by simp
  ultimately show ?thesis by (intro conjI)
qed

text \<open>
  \<^bold>\<open>C5\<close> (cursor on exit). The update after the loop, whatever page token \<open>tok\<close> and
  identifiers \<open>ids\<close> it is handed: when its command succeeds, the entry under the key
  holds \<open>tok\<close> with an expiry of 3600 seconds if and only if \<open>tok\<close> is a non-empty token
  and fewer identifiers than the remaining capacity were found, the command sent being
  that write; in every other case the entry is absent, the command sent being the
  delete; no other entry changes. A normal return of \<open>fetchNewThreads\<close> below the cap
  is this update, under the key \<open>pagination:\<close> followed by the user identifier, at the
  token and identifiers with which the loop ends. Since the loop goes on while a token is
  defined and capacity remains, these never satisfy the condition of the write: every
  normal exit deletes the entry.
\<close>

theorem cursor_update_on_exit:
  "(update_pagination en key remaining tok ids v = (v', Inr u) \<longrightarrow>
      ((redis v' key = Some (js_String tok, 3600)) = (truthy tok \<and> int (length ids) < remaining)) \<and>
      ((redis v' key = None) = (\<not> (truthy tok \<and> int (length ids) < remaining))) \<and>
      trace v' = trace v @ [if truthy tok \<and> int (length ids) < remaining
                            then RedisSet key (js_String tok) 3600 else RedisDel key] \<and>
      (truthy tok \<longrightarrow> tok = Str (js_String tok)) \<and>
      (\<forall>k. k \<noteq> key \<longrightarrow> redis v' k = redis v k))
 \<and> (0 < MAX_THREADS_PER_USER - int (length existing) \<and>
     fetchNewThreads en fuel g existing uid (''pagination:'' @ uid) w = Some (w', Inr found) \<longrightarrow>
      (\<exists>last_tok w2.
         discover en g (MAX_THREADS_PER_USER - int (length existing)) existing fuel
           (case redis w (''pagination:'' @ uid) of None \<Rightarrow> Null | Some (c, ttl) \<Rightarrow> Str c) []
           (emit (RedisGet (''pagination:'' @ uid)) w) = Some (w2, Inr (last_tok, found)) \<and>
         redis w2 = redis w \<and>
         update_pagination en (''pagination:'' @ uid) (MAX_THREADS_PER_USER - int (length existing))
           last_tok found w2 = (w', Inr ()) \<and>
         \<not> (truthy last_tok \<and> int (length found) < MAX_THREADS_PER_USER - int (length existing)) \<and>
         redis w' = (redis w)((''pagination:'' @ uid) := None) \<and>
         trace w' = trace w2 @ [RedisDel (''pagination:'' @ uid)]))"
proof (intro conjI impI)
  assume up: "update_pagination en key remaining tok ids v = (v', Inr u)"
  note v' = update_pagination_ok [OF up]
  show "(redis v' key = Some (js_String tok, 3600)) = (truthy tok \<and> int (length ids) < remaining)"
    by (subst v') simp
  show "(redis v' key = None) = (\<not> (truthy tok \<and> int (length ids) < remaining))"
    by (subst v') simp
  show "trace v' = trace v @ [if truthy tok \<and> int (length ids) < remaining
                            then RedisSet key (js_String tok) 3600 else RedisDel key]"
    by (subst v') simp
  show "\<forall>k. k \<noteq> key \<longrightarrow> redis v' k = redis v k"
    by (subst v') simp
next
  assume "truthy tok"
  then show "tok = Str (js_String tok)" by (cases tok) simp_all
next
  let ?rem = "MAX_THREADS_PER_USER - int (length existing)"
  let ?key = "''pagination:'' @ uid"
  let ?tok0 = "case redis w ?key of None \<Rightarrow> Null | Some (c, ttl) \<Rightarrow> Str c"
  assume a: "0 < ?rem \<and> fetchNewThreads en fuel g existing uid ?key w = Some (w', Inr found)"
  then have room: "0 < ?rem" and ok: "fetchNewThreads en fuel g existing uid ?key w = Some (w', Inr found)"
    by simp_all
  from ok obtain w2 last_tok where
    d: "discover en g ?rem existing fuel ?tok0 [] (emit (RedisGet ?key) w) = Some (w2, Inr (last_tok, found))"
    and up: "update_pagination en ?key ?rem last_tok found w2 = (w', Inr ())"
    unfolding fetchNewThreads_below_cap [OF room]
    by (auto split: option.splits sum.splits prod.splits)
  from discover_exit [OF d] have "last_tok = Undefined \<or> ?rem \<le> int (length found)" .
  then have never: "\<not> (truthy last_tok \<and> int (length found) < ?rem)" by auto
  from discover_cursor [OF d] have r2: "redis w2 = redis w" by simp
  from update_pagination_ok [OF up] never r2
  have w': "w' = emit (RedisDel ?key) (w2\<lparr>redis := (redis w)(?key := None)\<rparr>)" by simp
  have x: "redis w' = (redis w)(?key := None)" using w' by simp
  have y: "trace w' = trace w2 @ [RedisDel ?key]" using w' by simp
  from d r2 up never x y
  have "discover en g ?rem existing fuel ?tok0 [] (emit (RedisGet ?key) w) = Some (w2, Inr (last_tok, found)) \<and>
         redis w2 = redis w \<and>
         update_pagination en ?key ?rem last_tok found w2 = (w', Inr ()) \<and>
         \<not> (truthy last_tok \<and> int (length found) < ?rem) \<and>
         redis w' = (redis w)(?key := None) \<and>
         trace w' = trace w2 @ [RedisDel ?key]"
    by (intro conjI)
  then show "\<exists>last_tok w2.
         discover en g ?rem existing fuel ?tok0 [] (emit (RedisGet ?key) w) = Some (w2, Inr (last_tok, found)) \<and>
         redis w2 = redis w \<and>
         update_pagination en ?key ?rem last_tok found w2 = (w', Inr ()) \<and>
         \<not> (truthy last_tok \<and> int (length found) < ?rem) \<and>
         redis w' = (redis w)(?key := None) \<and>
         trace w' = trace w2 @ [RedisDel ?key]"
    by (intro exI)
qed

lemma resuming_run:
  "map_option snd (fetchNewThreads calm 5 ''tok'' [''t1''] ''u'' (''pagination:'' @ ''u'') resuming)
     = Some (Inr [''t2'', ''t3'', ''t4''])"
  by code_simp

lemma writing_step:
  "snd (update_pagination calm ''pagination:u'' 499 (Str ''p2'') [''t2''] w0) = Inr ()"
  by code_simp

text \<open>
  Handed the token \<open>p2\<close> and one identifier with room for 499, the update writes \<open>p2\<close>
  with 3600 seconds. In a run, a stored cursor \<open>p2\<close> is resumed from, the listing is
  exhausted and the cursor is deleted.
\<close>

theorem cursor_update_on_exit_witness:
  "(\<exists>v'. update_pagination calm ''pagination:u'' 499 (Str ''p2'') [''t2''] w0 = (v', Inr ()) \<and>
         redis v' ''pagination:u'' = Some (''p2'', 3600) \<and>
         trace v' = [RedisSet ''pagination:u'' ''p2'' 3600])
 \<and> (\<exists>w'. fetchNewThreads calm 5 ''tok'' [''t1''] ''u'' (''pagination:'' @ ''u'') resuming
           = Some (w', Inr [''t2'', ''t3'', ''t4'']) \<and>
        redis resuming ''pagination:u'' = Some (''p2'', 1800) \<and>
        redis w' ''pagination:u'' = None \<and>
        last (trace w') = RedisDel ''pagination:u'')"
proof (rule conjI)
  let ?v' = "fst (update_pagination calm ''pagination:u'' 499 (Str ''p2'') [''t2''] w0)"
  have up: "update_pagination calm ''pagination:u'' 499 (Str ''p2'') [''t2''] w0 = (?v', Inr ())"
    using writing_step by (rule snd_the)
  note t = cursor_update_on_exit [where en = calm and key = "''pagination:u''" and remaining = 499
      and tok = "Str ''p2''" and ids = "[''t2'']" and v = w0 and v' = ?v' and u = "()",
      THEN conjunct1, THEN mp, OF up]
  have c: "truthy (Str ''p2'') \<and> int (length [''t2'']) < 499" by simp
  from t [THEN conjunct1] c have "redis ?v' ''pagination:u'' = Some (js_String (Str ''p2''), 3600)"
    by (rule iffD2)
  then have a: "redis ?v' ''pagination:u'' = Some (''p2'', 3600)" by simp
  have tw: "trace w0 = []" by (simp add: w0_def)
  from t [THEN conjunct2, THEN conjunct2, THEN conjunct1]
  have b: "trace ?v' = [RedisSet ''pagination:u'' ''p2'' 3600]"
    by (simp add: tw)
  from up a b
  have "update_pagination calm ''pagination:u'' 499 (Str ''p2'') [''t2''] w0 = (?v', Inr ()) \<and>
         redis ?v' ''pagination:u'' = Some (''p2'', 3600) \<and>
         trace ?v' = [RedisSet ''pagination:u'' ''p2'' 3600]"
    by (intro conjI)
  note f = this
  show "\<exists>v'. update_pagination calm ''pagination:u'' 499 (Str ''p2'') [''t2''] w0 = (v', Inr ()) \<and>
         redis v' ''pagination:u'' = Some (''p2'', 3600) \<and>
         trace v' = [RedisSet ''pagination:u'' ''p2'' 3600]"
    by (rule exI [of _ ?v']) (rule f)
next
  let ?w' = "fst (the (fetchNewThreads calm 5 ''tok'' [''t1''] ''u'' (''pagination:'' @ ''u'') resuming))"
  have ok: "fetchNewThreads calm 5 ''tok'' [''t1''] ''u'' (''pagination:'' @ ''u'') resuming
              = Some (?w', Inr [''t2'', ''t3'', ''t4''])"
    using resuming_run by (rule Some_the)
  have room: "0 < MAX_THREADS_PER_USER - int (length [''t1''])"
    by (simp add: MAX_THREADS_PER_USER_def)
  note t = cursor_update_on_exit [where existing = "[''t1'']" and en = calm and fuel = 5
      and g = "''tok''" and uid = "''u''" and w = resuming and w' = ?w'
      and found = "[''t2'', ''t3'', ''t4'']", THEN conjunct2, THEN mp, OF conjI [OF room ok]]
  from t have "redis ?w' = (redis resuming)((''pagination:'' @ ''u'') := None)"
    by (elim exE conjE)
  moreover from t have "\<exists>w2::world. trace ?w' = trace w2 @ [RedisDel (''pagination:'' @ ''u'')]"
    by (elim exE conjE) (rule exI)
  ultimately have "redis ?w' ''pagination:u'' = None" and "last (trace ?w') = RedisDel ''pagination:u''"
    by auto
  moreover have "redis resuming ''pagination:u'' = Some (''p2'', 1800)"
    by (simp add: resuming_def)
  ultimately have "fetchNewThreads calm 5 ''tok'' [''t1''] ''u'' (''pagination:'' @ ''u'') resuming
           = Some (?w', Inr [''t2'', ''t3'', ''t4'']) \<and>
        redis resuming ''pagination:u'' = Some (''p2'', 1800) \<and>
        redis ?w' ''pagination:u'' = None \<and>
        last (trace ?w') = RedisDel ''pagination:u''"
    using ok by (intro conjI)
  note f = this
  show "\<exists>w'. fetchNewThreads calm 5 ''tok'' [''t1''] ''u'' (''pagination:'' @ ''u'') resuming
           = Some (w', Inr [''t2'', ''t3'', ''t4'']) \<and>
        redis resuming ''pagination:u'' = Some (''p2'', 1800) \<and>
        redis w' ''pagination:u'' = None \<and>
        last (trace w') = RedisDel ''pagination:u''"
    by (rule exI [of _ ?w']) (rule f)
qed

text \<open>
  \<^bold>\<open>C6\<close> (failure keeps the cursor). When the cursor has been read and a page fetch
  inside the loop rejects with \<open>e\<close>, \<open>fetchNewThreads\<close> rejects with that same \<open>e\<close>, which
  is the error of a call to the listing; the cursor store is what it was on entry, and
  no command that writes or deletes a cursor has been issued.
\<close>

theorem page_fetch_failure_keeps_cursor:
  assumes "redis_command en (trace w) = None"
    and "0 < MAX_THREADS_PER_USER - int (length existing)"
    and "discover en g (MAX_THREADS_PER_USER - int (length existing)) existing fuel
           (case redis w key of None \<Rightarrow> Null | Some (v, ttl) \<Rightarrow> Str v) []
           (emit (RedisGet key) w) = Some (w2, Inl e)"
  shows "fetchNewThreads en fuel g existing uid key w =
           Some (emit (LogError (''Error fetching threads: '' @ error_text e)) w2, Inl e) \<and>
         (\<exists>h t. threads_list en h g t = Inl e) \<and>
         redis (emit (LogError (''Error fetching threads: '' @ error_text e)) w2) = redis w \<and>
         filter cursor_write (trace (emit (LogError (''Error fetching threads: '' @ error_text e)) w2))
           = filter cursor_write (trace w)"
proof -
  have "fetchNewThreads en fuel g existing uid key w =
           Some (emit (LogError (''Error fetching threads: '' @ error_text e)) w2, Inl e)"
    unfolding fetchNewThreads_below_cap [OF assms(2)] using assms(1,3) by simp
  moreover from discover_error [OF assms(3)] have "\<exists>h t. threads_list en h g t = Inl e" .
  moreover from discover_cursor [OF assms(3)]
  have "redis w2 = redis w" "filter cursor_write (trace w2) = filter cursor_write (trace w)"
    by simp_all
  ultimately show ?thesis by simp
qed

lemma flaky_discover:
  "map_option snd (discover flaky ''tok'' (MAX_THREADS_PER_USER - int (length [''t1''])) [''t1''] 5
      (case redis resuming ''pagination:u'' of None \<Rightarrow> Null | Some (v, ttl) \<Rightarrow> Str v) []
      (emit (RedisGet ''pagination:u'') resuming))
     = Some (Inl (ErrorObj ''rate limit''))"
  by code_simp

text \<open>Resuming from \<open>p2\<close>, the fetch of \<open>p3\<close> fails: the stored cursor is still \<open>p2\<close>.\<close>

theorem page_fetch_failure_keeps_cursor_witness:
  "\<exists>w'. fetchNewThreads flaky 5 ''tok'' [''t1''] ''u'' ''pagination:u'' resuming
           = Some (w', Inl (ErrorObj ''rate limit'')) \<and>
        redis w' = redis resuming \<and>
        redis w' ''pagination:u'' = Some (''p2'', 1800) \<and>
        filter cursor_write (trace w') = []"
proof -
  let ?w2 = "fst (the (discover flaky ''tok'' (MAX_THREADS_PER_USER - int (length [''t1''])) [''t1''] 5
      (case redis resuming ''pagination:u'' of None \<Rightarrow> Null | Some (v, ttl) \<Rightarrow> Str v) []
      (emit (RedisGet ''pagination:u'') resuming)))"
  have quiet: "redis_command flaky (trace resuming) = None" by (simp add: flaky_def calm_def)
  have room: "0 < MAX_THREADS_PER_USER - int (length [''t1''])"
    by (simp add: MAX_THREADS_PER_USER_def)
  have failed: "discover flaky ''tok'' (MAX_THREADS_PER_USER - int (length [''t1''])) [''t1''] 5
      (case redis resuming ''pagination:u'' of None \<Rightarrow> Null | Some (v, ttl) \<Rightarrow> Str v) []
      (emit (RedisGet ''pagination:u'') resuming) = Some (?w2, Inl (ErrorObj ''rate limit''))"
    using flaky_discover by (rule Some_the)
  note t = page_fetch_failure_keeps_cursor [OF quiet room failed, of "''u''"]
  have "redis resuming ''pagination:u'' = Some (''p2'', 1800)" "filter cursor_write (trace resuming) = []"
    by (simp_all add: resuming_def)
  with t show ?thesis by auto
qed







text \<open>
  \<^bold>\<open>C8\<close>, as stated, fails in two ways. When the annotation call itself throws, the
  call is made and nothing follows for the threads of the slice: no query, no call of
  the embedding collaborator. When the annotation of one thread fails and leaves no
  annotation of it stored, the embedding collaborator is called for the other thread
  only.
\<close>

theorem annotation_failure_skips_embedding:
  "filter dispatch_call (trace (process_batch dbdown ''tok'' [''t2'', ''t3''] ''u'' w0))
     = [AutoAnnotate ''tok'' [''t2'', ''t3''] ''u''] \<and>
   filter embedding_call (trace (process_batch dbdown ''tok'' [''t2'', ''t3''] ''u'' w0)) = [] \<and>
   filter embedding_call (trace (process_batch picky ''tok'' [''t2'', ''t3''] ''u'' w0))
     = [EmbeddingsProcessThread ''u'' ''t3'' ''2024'' ''r''] \<and>
   filter embedding_call (trace (process_batch calm ''tok'' [''t2'', ''t3''] ''u'' w0))
     = [EmbeddingsProcessThread ''u'' ''t2'' ''2024'' ''r'',
        EmbeddingsProcessThread ''u'' ''t3'' ''2024'' ''r'']"
  by code_simp

text \<open>
  \<^bold>\<open>C8\<close>, amended. A slice that reaches dispatch (some message identifier was found
  and the bodies were fetched) is handed to the annotation collaborator first. When that
  call returns, which it does whatever happens to the annotation of single threads,
  \<open>processThread\<close> is started for every thread of the slice, once and in order, each
  with a query for the stored annotations of its thread, whatever the outcome of the
  others; the embedding collaborator is called for exactly the threads whose query
  answers, without error, with at least one row, and so not for a thread of which no
  annotation is stored; the failure of a query is logged; a failed call of the embedding
  collaborator is logged by \<open>processThread\<close> and then by the \<^verbatim>\<open>.catch\<close> of
  \<open>processThreads\<close>, and when that \<^verbatim>\<open>.catch\<close> cannot read a message of the error, which
  is \<^verbatim>\<open>null\<close> or \<^verbatim>\<open>undefined\<close>, the \<^verbatim>\<open>catch\<close> around the slice logs in its place.
  Whenever \<open>processThread\<close> rejects, the last thing it has done is to log the error.
  When the annotation call throws \<open>e\<close>, the error is logged and the slice ends there,
  with no query and no embedding call.
\<close>

theorem dispatch_of_a_slice:
  "(fetch_threads en g batch w = (w1, td) \<and> message_ids td \<noteq> [] \<and>
    batchGetMessages en g (message_ids td) w1 = (w2, Inr ()) \<and>
    annotations_lookup en (trace w2 @ [AutoAnnotate g batch uid]) uid = None \<and>
    w3 = annotate_each en g batch uid (emit (AutoAnnotate g batch uid) w2) \<longrightarrow>
      filter annotation_query (trace (process_batch en g batch uid w))
        = filter annotation_query (trace w) @ map (\<lambda>t. SelectAnnotations t uid) batch \<and>
      list_all2 (\<lambda>t p. fst p = t \<and> (\<exists>h. snd p = annotations_select en h t uid))
        batch (snd (start_threads en batch uid w3)) \<and>
      filter embedding_call (trace (process_batch en g batch uid w))
        = filter embedding_call (trace w) @ embeddings_due uid (snd (start_threads en batch uid w3)) \<and>
      set (query_failures (snd (start_threads en batch uid w3)))
        \<subseteq> set (trace (process_batch en g batch uid w)) \<and>
      (\<exists>evs. trace (process_batch en g batch uid w) = trace w3 @ evs \<and>
             failures_logged en (list_ex slice_catch evs) (trace w3) evs))
 \<and> (processThread_rest en t uid answer v = (v', Inl x) \<longrightarrow>
      (\<exists>evs. trace v' = trace v @ evs
                @ [LogError (''Error processing thread '' @ t @ '': '' @ error_text x)]))
 \<and> (fetch_threads en g batch w = (w1, td) \<and> message_ids td \<noteq> [] \<and>
    batchGetMessages en g (message_ids td) w1 = (w2, Inr ()) \<and>
    annotations_lookup en (trace w2 @ [AutoAnnotate g batch uid]) uid = Some e \<longrightarrow>
      process_batch en g batch uid w
        = emit (LogError (''Error processing batch of threads: '' @ error_text e))
            (emit (LogError (''Failed to process threads: '' @ error_text e))
               (emit (AutoAnnotate g batch uid) w2)) \<and>
      filter annotation_query (trace (process_batch en g batch uid w)) = filter annotation_query (trace w) \<and>
      filter embedding_call (trace (process_batch en g batch uid w)) = filter embedding_call (trace w))"
proof (intro conjI impI)
  assume a: "fetch_threads en g batch w = (w1, td) \<and> message_ids td \<noteq> [] \<and>
    batchGetMessages en g (message_ids td) w1 = (w2, Inr ()) \<and>
    annotations_lookup en (trace w2 @ [AutoAnnotate g batch uid]) uid = None \<and>
    w3 = annotate_each en g batch uid (emit (AutoAnnotate g batch uid) w2)"
  let ?pb = "process_batch en g batch uid w"
  let ?w4 = "fst (embed_all en batch uid w3)"
  have d1: "filter dispatch_call (trace w1) = filter dispatch_call (trace w)"
    using fetch_threads_dispatch [of en g batch w] a by simp
  have d2: "filter dispatch_call (trace w2) = filter dispatch_call (trace w1)"
    using batchGetMessages_dispatch [of en g "message_ids td" w1] a by simp
  have q2: "filter annotation_query (trace w2) = filter annotation_query (trace w)"
    using query_unchanged [OF d2] query_unchanged [OF d1] by simp
  have e2: "filter embedding_call (trace w2) = filter embedding_call (trace w)"
    using embedding_unchanged [OF d2] embedding_unchanged [OF d1] by simp
  have w3: "w3 = annotate_each en g batch uid (emit (AutoAnnotate g batch uid) w2)" using a by simp
  have q3: "filter annotation_query (trace w3) = filter annotation_query (trace w)"
    unfolding w3 using q2 by (simp add: annotate_each_quiet)
  have e3: "filter embedding_call (trace w3) = filter embedding_call (trace w)"
    unfolding w3 using e2 by (simp add: annotate_each_quiet)
  have pb: "?pb = (case embed_all en batch uid w3 of
                     (w4, Some e) \<Rightarrow> emit (LogError (''Error processing batch of threads: '' @ error_text e)) w4
                   | (w4, None) \<Rightarrow> w4)"
    using a by (simp add: process_batch_def autoAnnotate_def Let_def)
  have shape: "?pb = ?w4 \<or> (\<exists>m. ?pb = emit (LogError m) ?w4)"
    unfolding pb by (cases "embed_all en batch uid w3") (auto split: option.splits)
  have q: "filter annotation_query (trace ?pb) = filter annotation_query (trace ?w4)"
    using shape by auto
  have em: "filter embedding_call (trace ?pb) = filter embedding_call (trace ?w4)"
    using shape by auto
  have sub: "set (trace ?w4) \<subseteq> set (trace ?pb)"
    using shape by auto
  show "filter annotation_query (trace ?pb)
        = filter annotation_query (trace w) @ map (\<lambda>t. SelectAnnotations t uid) batch"
    unfolding q embed_all_query q3 by (rule refl)
  show "list_all2 (\<lambda>t p. fst p = t \<and> (\<exists>h. snd p = annotations_select en h t uid))
        batch (snd (start_threads en batch uid w3))"
    by (rule start_threads_answers)
  show "filter embedding_call (trace ?pb)
        = filter embedding_call (trace w) @ embeddings_due uid (snd (start_threads en batch uid w3))"
    unfolding em embed_all_embedding e3 by (rule refl)
  show "set (query_failures (snd (start_threads en batch uid w3))) \<subseteq> set (trace ?pb)"
    using embed_all_failures [of en batch uid w3] sub by (rule subset_trans)
  show "\<exists>evs. trace ?pb = trace w3 @ evs \<and> failures_logged en (list_ex slice_catch evs) (trace w3) evs"
    unfolding pb by (rule slice_logged)
next
  assume "processThread_rest en t uid answer v = (v', Inl x)"
  then show "\<exists>evs. trace v' = trace v @ evs
                @ [LogError (''Error processing thread '' @ t @ '': '' @ error_text x)]"
    by (rule processThread_rest_rejection)
next
  assume a: "fetch_threads en g batch w = (w1, td) \<and> message_ids td \<noteq> [] \<and>
    batchGetMessages en g (message_ids td) w1 = (w2, Inr ()) \<and>
    annotations_lookup en (trace w2 @ [AutoAnnotate g batch uid]) uid = Some e"
  have d1: "filter dispatch_call (trace w1) = filter dispatch_call (trace w)"
    using fetch_threads_dispatch [of en g batch w] a by simp
  have d2: "filter dispatch_call (trace w2) = filter dispatch_call (trace w1)"
    using batchGetMessages_dispatch [of en g "message_ids td" w1] a by simp
  have q2: "filter annotation_query (trace w2) = filter annotation_query (trace w)"
    using query_unchanged [OF d2] query_unchanged [OF d1] by simp
  have e2: "filter embedding_call (trace w2) = filter embedding_call (trace w)"
    using embedding_unchanged [OF d2] embedding_unchanged [OF d1] by simp
  from a show pb: "process_batch en g batch uid w
        = emit (LogError (''Error processing batch of threads: '' @ error_text e))
            (emit (LogError (''Failed to process threads: '' @ error_text e))
               (emit (AutoAnnotate g batch uid) w2))"
    by (simp add: process_batch_def autoAnnotate_def Let_def)
  show "filter annotation_query (trace (process_batch en g batch uid w)) = filter annotation_query (trace w)"
    unfolding pb using q2 by simp
  show "filter embedding_call (trace (process_batch en g batch uid w)) = filter embedding_call (trace w)"
    unfolding pb using e2 by simp
qed

lemma picky_ids:
  "message_ids (snd (fetch_threads picky ''tok'' [''t2'', ''t3''] w0)) = [Str ''t2-m'', Str ''t3-m'']"
  by code_simp

lemma picky_batch:
  "snd (batchGetMessages picky ''tok'' (message_ids (snd (fetch_threads picky ''tok'' [''t2'', ''t3''] w0)))
          (fst (fetch_threads picky ''tok'' [''t2'', ''t3''] w0))) = Inr ()"
  by code_simp

lemma picky_log:
  "LogError ''Error fetching thread t2: model refused''
     \<in> set (trace (process_batch picky ''tok'' [''t2'', ''t3''] ''u'' w0))"
  by code_simp

lemma picky_due:
  "embeddings_due ''u''
     (snd (start_threads picky [''t2'', ''t3''] ''u''
        (annotate_each picky ''tok'' [''t2'', ''t3''] ''u''
           (emit (AutoAnnotate ''tok'' [''t2'', ''t3''] ''u'')
              (fst (batchGetMessages picky ''tok''
                      (message_ids (snd (fetch_threads picky ''tok'' [''t2'', ''t3''] w0)))
                      (fst (fetch_threads picky ''tok'' [''t2'', ''t3''] w0))))))))
     = [EmbeddingsProcessThread ''u'' ''t3'' ''2024'' ''r'']"
  by code_simp

lemma brittle_run:
  "filter embedding_call (trace (process_batch brittle ''tok'' [''t2'', ''t3'', ''t4'', ''t5''] ''u'' w0))
     = [EmbeddingsProcessThread ''u'' ''t3'' ''2024'' ''r'',
        EmbeddingsProcessThread ''u'' ''t4'' ''2024'' ''r'',
        EmbeddingsProcessThread ''u'' ''t5'' ''2024'' ''r''] \<and>
   filter (\<lambda>ev. \<not> dispatch_call ev \<and> \<not> threads_get_call ev)
          (drop 8 (trace (process_batch brittle ''tok'' [''t2'', ''t3'', ''t4'', ''t5''] ''u'' w0)))
     = [LogError ''Error processing thread t2: Failed to fetch thread annotations: [object Object]'',
        LogError ''Failed to process thread t2: Failed to fetch thread annotations: [object Object]'',
        LogError ''Error processing thread t3: no vector'',
        LogError ''Failed to process thread t3: no vector'',
        LogError ''Error processing thread t4: null'',
        LogError (''Error processing batch of threads: Cannot read properties of null (reading ''
                  @ [quote] @ ''message'' @ [quote] @ '')'')]"
  by code_simp

lemma brittle_ids:
  "message_ids (snd (fetch_threads brittle ''tok'' [''t2'', ''t3'', ''t4'', ''t5''] w0))
     = [Str ''t2-m'', Str ''t3-m'', Str ''t4-m'', Str ''t5-m'']"
  by code_simp

lemma brittle_batch:
  "snd (batchGetMessages brittle ''tok''
          (message_ids (snd (fetch_threads brittle ''tok'' [''t2'', ''t3'', ''t4'', ''t5''] w0)))
          (fst (fetch_threads brittle ''tok'' [''t2'', ''t3'', ''t4'', ''t5''] w0))) = Inr ()"
  by code_simp

lemma brittle_rejects:
  "snd (processThread_rest brittle ''t3'' ''u''
          (Inr \<lparr>data = Some [\<lparr>created_at = ''2024'', recipients = ''r''\<rparr>], error = None\<rparr>) w0)
     = Inl (ErrorObj ''no vector'')"
  by code_simp

lemma dbdown_ids:
  "message_ids (snd (fetch_threads dbdown ''tok'' [''t2'', ''t3''] w0)) = [Str ''t2-m'', Str ''t3-m'']"
  by code_simp

lemma dbdown_batch:
  "snd (batchGetMessages dbdown ''tok'' (message_ids (snd (fetch_threads dbdown ''tok'' [''t2'', ''t3''] w0)))
          (fst (fetch_threads dbdown ''tok'' [''t2'', ''t3''] w0))) = Inr ()"
  by code_simp

text \<open>
  Annotating \<open>t2\<close> fails, is logged and leaves no row: both threads are queried and
  \<open>t3\<close> alone is embedded. With a failing query for \<open>t2\<close>, a failing embedding of
  \<open>t3\<close> and an embedding of \<open>t4\<close> that rejects with \<^verbatim>\<open>null\<close>, every failure is logged,
  that of \<open>t4\<close> by the \<^verbatim>\<open>catch\<close> around the slice, and \<open>t5\<close> is embedded all the same. With the annotation table out of reach, no thread
  is queried or embedded.
\<close>

theorem dispatch_of_a_slice_witness:
  "LogError ''Error fetching thread t2: model refused''
     \<in> set (trace (process_batch picky ''tok'' [''t2'', ''t3''] ''u'' w0)) \<and>
   filter annotation_query (trace (process_batch picky ''tok'' [''t2'', ''t3''] ''u'' w0))
     = [SelectAnnotations ''t2'' ''u'', SelectAnnotations ''t3'' ''u''] \<and>
   filter embedding_call (trace (process_batch picky ''tok'' [''t2'', ''t3''] ''u'' w0))
     = [EmbeddingsProcessThread ''u'' ''t3'' ''2024'' ''r''] \<and>
   filter embedding_call (trace (process_batch brittle ''tok'' [''t2'', ''t3'', ''t4'', ''t5''] ''u'' w0))
     = [EmbeddingsProcessThread ''u'' ''t3'' ''2024'' ''r'',
        EmbeddingsProcessThread ''u'' ''t4'' ''2024'' ''r'',
        EmbeddingsProcessThread ''u'' ''t5'' ''2024'' ''r''] \<and>
   filter (\<lambda>ev. \<not> dispatch_call ev \<and> \<not> threads_get_call ev)
          (drop 8 (trace (process_batch brittle ''tok'' [''t2'', ''t3'', ''t4'', ''t5''] ''u'' w0)))
     = [LogError ''Error processing thread t2: Failed to fetch thread annotations: [object Object]'',
        LogError ''Failed to process thread t2: Failed to fetch thread annotations: [object Object]'',
        LogError ''Error processing thread t3: no vector'',
        LogError ''Failed to process thread t3: no vector'',
        LogError ''Error processing thread t4: null'',
        LogError (''Error processing batch of threads: Cannot read properties of null (reading ''
                  @ [quote] @ ''message'' @ [quote] @ '')'')] \<and>
   (\<exists>evs. trace (process_batch brittle ''tok'' [''t2'', ''t3'', ''t4'', ''t5''] ''u'' w0)
            = trace (annotate_each brittle ''tok'' [''t2'', ''t3'', ''t4'', ''t5''] ''u''
                       (emit (AutoAnnotate ''tok'' [''t2'', ''t3'', ''t4'', ''t5''] ''u'')
                          (fst (batchGetMessages brittle ''tok''
                                  (message_ids (snd (fetch_threads brittle ''tok''
                                                       [''t2'', ''t3'', ''t4'', ''t5''] w0)))
                                  (fst (fetch_threads brittle ''tok'' [''t2'', ''t3'', ''t4'', ''t5''] w0))))))
              @ evs \<and>
          failures_logged brittle (list_ex slice_catch evs)
            (trace (annotate_each brittle ''tok'' [''t2'', ''t3'', ''t4'', ''t5''] ''u''
                      (emit (AutoAnnotate ''tok'' [''t2'', ''t3'', ''t4'', ''t5''] ''u'')
                         (fst (batchGetMessages brittle ''tok''
                                 (message_ids (snd (fetch_threads brittle ''tok''
                                                      [''t2'', ''t3'', ''t4'', ''t5''] w0)))
                                 (fst (fetch_threads brittle ''tok'' [''t2'', ''t3'', ''t4'', ''t5''] w0)))))))
            evs) \<and>
   (\<exists>evs. trace (fst (processThread_rest brittle ''t3'' ''u''
                   (Inr \<lparr>data = Some [\<lparr>created_at = ''2024'', recipients = ''r''\<rparr>], error = None\<rparr>) w0))
            = trace w0 @ evs
              @ [LogError (''Error processing thread '' @ ''t3'' @ '': '' @ error_text (ErrorObj ''no vector''))]) \<and>
   filter annotation_query (trace (process_batch dbdown ''tok'' [''t2'', ''t3''] ''u'' w0)) = [] \<and>
   filter embedding_call (trace (process_batch dbdown ''tok'' [''t2'', ''t3''] ''u'' w0)) = []"
proof -
  let ?ft = "fetch_threads picky ''tok'' [''t2'', ''t3''] w0"
  let ?bg = "batchGetMessages picky ''tok'' (message_ids (snd ?ft)) (fst ?ft)"
  let ?w3 = "annotate_each picky ''tok'' [''t2'', ''t3''] ''u''
               (emit (AutoAnnotate ''tok'' [''t2'', ''t3''] ''u'') (fst ?bg))"
  let ?fb = "fetch_threads brittle ''tok'' [''t2'', ''t3'', ''t4'', ''t5''] w0"
  let ?bb = "batchGetMessages brittle ''tok'' (message_ids (snd ?fb)) (fst ?fb)"
  let ?w3b = "annotate_each brittle ''tok'' [''t2'', ''t3'', ''t4'', ''t5''] ''u''
                (emit (AutoAnnotate ''tok'' [''t2'', ''t3'', ''t4'', ''t5''] ''u'') (fst ?bb))"
  let ?fd = "fetch_threads dbdown ''tok'' [''t2'', ''t3''] w0"
  let ?bd = "batchGetMessages dbdown ''tok'' (message_ids (snd ?fd)) (fst ?fd)"
  let ?answer = "Inr \<lparr>data = Some [\<lparr>created_at = ''2024'', recipients = ''r''\<rparr>], error = None\<rparr>
                   :: thrown + annotation query_result"
  let ?pr = "processThread_rest brittle ''t3'' ''u'' ?answer w0"
  have h1: "?ft = (fst ?ft, snd ?ft) \<and> message_ids (snd ?ft) \<noteq> [] \<and> ?bg = (fst ?bg, Inr ()) \<and>
            annotations_lookup picky (trace (fst ?bg) @ [AutoAnnotate ''tok'' [''t2'', ''t3''] ''u'']) ''u'' = None \<and>
            ?w3 = ?w3"
  proof (intro conjI)
    show "?ft = (fst ?ft, snd ?ft)" by (rule prod.collapse [symmetric])
    show "message_ids (snd ?ft) \<noteq> []" unfolding picky_ids by simp
    show "?bg = (fst ?bg, Inr ())" using picky_batch by (rule snd_the)
    show "annotations_lookup picky (trace (fst ?bg) @ [AutoAnnotate ''tok'' [''t2'', ''t3''] ''u'']) ''u'' = None"
      by (simp add: picky_def calm_def)
    show "?w3 = ?w3" by (rule refl)
  qed
  have h1b: "?fb = (fst ?fb, snd ?fb) \<and> message_ids (snd ?fb) \<noteq> [] \<and> ?bb = (fst ?bb, Inr ()) \<and>
            annotations_lookup brittle
              (trace (fst ?bb) @ [AutoAnnotate ''tok'' [''t2'', ''t3'', ''t4'', ''t5''] ''u'']) ''u'' = None \<and>
            ?w3b = ?w3b"
  proof (intro conjI)
    show "?fb = (fst ?fb, snd ?fb)" by (rule prod.collapse [symmetric])
    show "message_ids (snd ?fb) \<noteq> []" unfolding brittle_ids by simp
    show "?bb = (fst ?bb, Inr ())" using brittle_batch by (rule snd_the)
    show "annotations_lookup brittle
            (trace (fst ?bb) @ [AutoAnnotate ''tok'' [''t2'', ''t3'', ''t4'', ''t5''] ''u'']) ''u'' = None"
      by (simp add: brittle_def calm_def)
    show "?w3b = ?w3b" by (rule refl)
  qed
  have h2: "?fd = (fst ?fd, snd ?fd) \<and> message_ids (snd ?fd) \<noteq> [] \<and> ?bd = (fst ?bd, Inr ()) \<and>
            annotations_lookup dbdown (trace (fst ?bd) @ [AutoAnnotate ''tok'' [''t2'', ''t3''] ''u'']) ''u''
              = Some (ErrorObj ''db down'')"
  proof (intro conjI)
    show "?fd = (fst ?fd, snd ?fd)" by (rule prod.collapse [symmetric])
    show "message_ids (snd ?fd) \<noteq> []" unfolding dbdown_ids by simp
    show "?bd = (fst ?bd, Inr ())" using dbdown_batch by (rule snd_the)
    show "annotations_lookup dbdown (trace (fst ?bd) @ [AutoAnnotate ''tok'' [''t2'', ''t3''] ''u'']) ''u''
              = Some (ErrorObj ''db down'')"
      by (simp add: dbdown_def)
  qed
  have h3: "?pr = (fst ?pr, Inl (ErrorObj ''no vector''))" using brittle_rejects by (rule snd_the)
  note t1 = dispatch_of_a_slice [where en = picky and g = "''tok''" and batch = "[''t2'', ''t3'']"
      and w = w0 and ?w1.0 = "fst ?ft" and td = "snd ?ft" and ?w2.0 = "fst ?bg" and uid = "''u''"
      and ?w3.0 = ?w3, THEN conjunct1, THEN mp, OF h1]
  note t1b = dispatch_of_a_slice [where en = brittle and g = "''tok''"
      and batch = "[''t2'', ''t3'', ''t4'', ''t5'']"
      and w = w0 and ?w1.0 = "fst ?fb" and td = "snd ?fb" and ?w2.0 = "fst ?bb" and uid = "''u''"
      and ?w3.0 = ?w3b, THEN conjunct1, THEN mp, OF h1b]
  note t2 = dispatch_of_a_slice [where en = brittle and t = "''t3''" and uid = "''u''"
      and answer = ?answer and v = w0 and v' = "fst ?pr" and x = "ErrorObj ''no vector''",
      THEN conjunct2, THEN conjunct1, THEN mp, OF h3]
  note t3 = dispatch_of_a_slice [where en = dbdown and g = "''tok''" and batch = "[''t2'', ''t3'']"
      and w = w0 and ?w1.0 = "fst ?fd" and td = "snd ?fd" and ?w2.0 = "fst ?bd" and uid = "''u''"
      and e = "ErrorObj ''db down''", THEN conjunct2, THEN conjunct2, THEN mp, OF h2]
  have tw: "trace w0 = []" by (simp add: w0_def)
  from t1 [THEN conjunct1]
  have a: "filter annotation_query (trace (process_batch picky ''tok'' [''t2'', ''t3''] ''u'' w0))
     = [SelectAnnotations ''t2'' ''u'', SelectAnnotations ''t3'' ''u'']"
    by (simp only: tw filter.simps append_Nil list.map)
  from t1 [THEN conjunct2, THEN conjunct2, THEN conjunct1]
  have b: "filter embedding_call (trace (process_batch picky ''tok'' [''t2'', ''t3''] ''u'' w0))
     = [EmbeddingsProcessThread ''u'' ''t3'' ''2024'' ''r'']"
    by (simp only: tw filter.simps append_Nil picky_due)
  from t3 [THEN conjunct2, THEN conjunct1]
  have c: "filter annotation_query (trace (process_batch dbdown ''tok'' [''t2'', ''t3''] ''u'' w0)) = []"
    by (simp only: tw filter.simps)
  from t3 [THEN conjunct2, THEN conjunct2]
  have d: "filter embedding_call (trace (process_batch dbdown ''tok'' [''t2'', ''t3''] ''u'' w0)) = []"
    by (simp only: tw filter.simps)
  show ?thesis
    using picky_log a b brittle_run [THEN conjunct1] brittle_run [THEN conjunct2]
      t1b [THEN conjunct2, THEN conjunct2, THEN conjunct2, THEN conjunct2] t2 c d
    by (intro conjI)
qed

text \<open>
  \<^bold>\<open>C9\<close>, as stated, fails for the batch fetcher and for dispatch: with a message
  body that cannot be fetched, or an annotation call that throws, the failure is logged
  and the only bus call of the handler is the completion of the message.
\<close>

theorem batch_failure_is_acknowledged:
  "map_option (\<lambda>(t, r). (filter bus_call (trace (outside t)), r,
                          LogError ''Error batch getting messages: boom'' \<in> set (trace (outside t))))
     (on_message lossy 5 (msg 0) (initial w0)) = Some ([CompleteMessage (msg 0)], Inr (), True) \<and>
   map_option (\<lambda>(t, r). (filter bus_call (trace (outside t)), r,
                          LogError ''Failed to process threads: db down'' \<in> set (trace (outside t))))
     (on_message dbdown 5 (msg 0) (initial w0)) = Some ([CompleteMessage (msg 0)], Inr (), True)"
  by code_simp

text \<open>
  \<^bold>\<open>C9\<close>, amended. A failure of thread discovery, be it the lookup of the processed
  threads or \<open>fetchNewThreads\<close>, reaches the handler, whose \<^verbatim>\<open>catch\<close> block takes the
  retry or dead-letter decision. Once discovery has succeeded, \<open>processMessage\<close> returns
  normally whatever fails inside \<open>processThreads\<close>, and the handler goes on to complete
  the bus message.
\<close>

theorem failure_propagation:
  "(getExistingThreads en (userId (body m)) w = (w1, Inl e) \<longrightarrow>
      attempt en fuel m w = Some (on_error en m e w1))
 \<and> (getExistingThreads en (userId (body m)) w = (w1, Inr existing) \<and>
     fetchNewThreads en fuel (accessToken (body m)) existing (userId (body m))
       (''pagination:'' @ userId (body m)) w1 = Some (w2, Inl e) \<longrightarrow>
      attempt en fuel m w = Some (on_error en m e w2))
 \<and> (getExistingThreads en (userId (body m)) w = (w1, Inr existing) \<and>
     fetchNewThreads en fuel (accessToken (body m)) existing (userId (body m))
       (''pagination:'' @ userId (body m)) w1 = Some (w2, Inr ids) \<longrightarrow>
      processMessage en fuel m w
        = Some (processThreads en (accessToken (body m)) ids (userId (body m)) w2, Inr ()) \<and>
      (\<exists>w' r rest. attempt en fuel m w = Some (w', r) \<and>
         trace w' = trace (processThreads en (accessToken (body m)) ids (userId (body m)) w2)
                     @ CompleteMessage m # rest))"
proof (intro conjI impI)
  assume "getExistingThreads en (userId (body m)) w = (w1, Inl e)"
  then show "attempt en fuel m w = Some (on_error en m e w1)"
    by (simp add: attempt_def processMessage_def Let_def)
next
  assume "getExistingThreads en (userId (body m)) w = (w1, Inr existing) \<and>
     fetchNewThreads en fuel (accessToken (body m)) existing (userId (body m))
       (''pagination:'' @ userId (body m)) w1 = Some (w2, Inl e)"
  then show "attempt en fuel m w = Some (on_error en m e w2)"
    by (simp add: attempt_def processMessage_def Let_def)
next
  let ?w3 = "processThreads en (accessToken (body m)) ids (userId (body m)) w2"
  assume a: "getExistingThreads en (userId (body m)) w = (w1, Inr existing) \<and>
     fetchNewThreads en fuel (accessToken (body m)) existing (userId (body m))
       (''pagination:'' @ userId (body m)) w1 = Some (w2, Inr ids)"
  then show pm: "processMessage en fuel m w = Some (?w3, Inr ())"
    by (simp add: processMessage_def Let_def)
  show "\<exists>w' r rest. attempt en fuel m w = Some (w', r) \<and> trace w' = trace ?w3 @ CompleteMessage m # rest"
  proof (cases "completeMessage en (trace ?w3) m")
    case None
    then have "attempt en fuel m w = Some (emit (CompleteMessage m) ?w3, Inr ()) \<and>
        trace (emit (CompleteMessage m) ?w3) = trace ?w3 @ CompleteMessage m # []"
      using pm by (simp add: attempt_def Let_def)
    then show ?thesis by (intro exI)
  next
    case (Some x)
    let ?o = "on_error en m x (emit (CompleteMessage m) ?w3)"
    obtain rest0 where "trace (fst ?o) = trace (emit (CompleteMessage m) ?w3)
        @ [LogError (''Error processing message: '' @ error_text x),
           (if delivery_count m < 3 then AbandonMessage m
            else DeadLetterMessage m ''Max retries exceeded'' (error_text x))] @ rest0"
      using on_error_trace [of en m x "emit (CompleteMessage m) ?w3"] by (elim exE conjE)
    then have t: "trace (fst ?o) = trace ?w3 @ CompleteMessage m #
           ([LogError (''Error processing message: '' @ error_text x),
           (if delivery_count m < 3 then AbandonMessage m
            else DeadLetterMessage m ''Max retries exceeded'' (error_text x))] @ rest0)"
      by simp
    have "attempt en fuel m w = Some (fst ?o, snd ?o)"
      using pm Some by (simp add: attempt_def Let_def)
    with t have "attempt en fuel m w = Some (fst ?o, snd ?o) \<and> trace (fst ?o) = trace ?w3 @ CompleteMessage m #
           ([LogError (''Error processing message: '' @ error_text x),
           (if delivery_count m < 3 then AbandonMessage m
            else DeadLetterMessage m ''Max retries exceeded'' (error_text x))] @ rest0)" by simp
    then show ?thesis by (intro exI)
  qed
qed

lemma flaky_existing: "snd (getExistingThreads flaky ''u'' w0) = Inr [''t1'']"
  by code_simp

lemma flaky_discovery:
  "map_option snd (fetchNewThreads flaky 5 ''tok'' [''t1''] ''u'' ''pagination:u''
      (fst (getExistingThreads flaky ''u'' w0))) = Some (Inl (ErrorObj ''rate limit''))"
  by code_simp

lemma lossy_existing: "snd (getExistingThreads lossy ''u'' w0) = Inr [''t1'']"
  by code_simp

lemma lossy_discovery:
  "map_option snd (fetchNewThreads lossy 5 ''tok'' [''t1''] ''u'' ''pagination:u''
      (fst (getExistingThreads lossy ''u'' w0))) = Some (Inr [''t2'', ''t3'', ''t4''])"
  by code_simp

text \<open>
  A page fetch that fails reaches the \<^verbatim>\<open>catch\<close> block; a message body that cannot be
  fetched does not keep the message from being completed.
\<close>

theorem failure_propagation_witness:
  "(\<exists>w2. attempt flaky 5 (msg 4) w0 = Some (on_error flaky (msg 4) (ErrorObj ''rate limit'') w2)) \<and>
   (\<exists>w2 w' r rest.
      processMessage lossy 5 (msg 0) w0 = Some (processThreads lossy ''tok'' [''t2'', ''t3'', ''t4''] ''u'' w2, Inr ()) \<and>
      attempt lossy 5 (msg 0) w0 = Some (w', r) \<and>
      trace w' = trace (processThreads lossy ''tok'' [''t2'', ''t3'', ''t4''] ''u'' w2)
                   @ CompleteMessage (msg 0) # rest)"
proof (intro conjI)
  let ?w1 = "fst (getExistingThreads flaky ''u'' w0)"
  let ?w2 = "fst (the (fetchNewThreads flaky 5 ''tok'' [''t1''] ''u'' ''pagination:u'' ?w1))"
  have u: "userId (body (msg 4)) = ''u''" "accessToken (body (msg 4)) = ''tok''" by (simp_all add: msg_def)
  have h: "getExistingThreads flaky (userId (body (msg 4))) w0 = (?w1, Inr [''t1'']) \<and>
     fetchNewThreads flaky 5 (accessToken (body (msg 4))) [''t1''] (userId (body (msg 4)))
       (''pagination:'' @ userId (body (msg 4))) ?w1 = Some (?w2, Inl (ErrorObj ''rate limit''))"
    unfolding u using snd_the [OF flaky_existing] Some_the [OF flaky_discovery] by simp
  from failure_propagation [of flaky "msg 4" w0 ?w1 "ErrorObj ''rate limit''" 5 "[''t1'']" ?w2] h
  have "attempt flaky 5 (msg 4) w0 = Some (on_error flaky (msg 4) (ErrorObj ''rate limit'') ?w2)"
    by blast
  then show "\<exists>w2. attempt flaky 5 (msg 4) w0 = Some (on_error flaky (msg 4) (ErrorObj ''rate limit'') w2)"
    by (rule exI)
next
  let ?w1 = "fst (getExistingThreads lossy ''u'' w0)"
  let ?w2 = "fst (the (fetchNewThreads lossy 5 ''tok'' [''t1''] ''u'' ''pagination:u'' ?w1))"
  have u: "userId (body (msg 0)) = ''u''" "accessToken (body (msg 0)) = ''tok''" by (simp_all add: msg_def)
  have h: "getExistingThreads lossy (userId (body (msg 0))) w0 = (?w1, Inr [''t1'']) \<and>
     fetchNewThreads lossy 5 (accessToken (body (msg 0))) [''t1''] (userId (body (msg 0)))
       (''pagination:'' @ userId (body (msg 0))) ?w1 = Some (?w2, Inr [''t2'', ''t3'', ''t4''])"
    unfolding u using snd_the [OF lossy_existing] Some_the [OF lossy_discovery] by simp
  from failure_propagation [of lossy "msg 0" w0 ?w1 _ 5 "[''t1'']" ?w2 "[''t2'', ''t3'', ''t4'']"] h
  have "processMessage lossy 5 (msg 0) w0
        = Some (processThreads lossy (accessToken (body (msg 0))) [''t2'', ''t3'', ''t4''] (userId (body (msg 0))) ?w2, Inr ()) \<and>
      (\<exists>w' r rest. attempt lossy 5 (msg 0) w0 = Some (w', r) \<and>
         trace w' = trace (processThreads lossy (accessToken (body (msg 0))) [''t2'', ''t3'', ''t4''] (userId (body (msg 0))) ?w2)
                     @ CompleteMessage (msg 0) # rest)"
    by blast
  then show "\<exists>w2 w' r rest.
      processMessage lossy 5 (msg 0) w0 = Some (processThreads lossy ''tok'' [''t2'', ''t3'', ''t4''] ''u'' w2, Inr ()) \<and>
      attempt lossy 5 (msg 0) w0 = Some (w', r) \<and>
      trace w' = trace (processThreads lossy ''tok'' [''t2'', ''t3'', ''t4''] ''u'' w2)
                   @ CompleteMessage (msg 0) # rest"
    unfolding u by blast
qed

text \<open>
  \<^bold>\<open>C10\<close> (messages without identifier). Two messages that carry no identifier both
  have the empty string as key. Hence, once the first is admitted and for as long as it
  is in flight, whatever has happened outside meanwhile, the second is refused as if it
  were a duplicate.
\<close>

theorem missing_identifier_collision:
  assumes "messageId m1 = None" and "messageId m2 = None"
    and "messageKey m1 \<notin> processingMessages s"
    and "activeProcessingCount s < MAX_CONCURRENT_MESSAGES"
  shows "messageKey m1 = [] \<and> messageKey m2 = [] \<and>
         act (Arrive m1) (s, inflight) = (admit [] s, m1 # inflight) \<and>
         act (Arrive m2) (act (Arrive m1) (s, inflight)) = act (Arrive m1) (s, inflight) \<and>
         on_message en fuel m2 ((admit (messageKey m1) s)\<lparr>outside := w\<rparr>)
           = Some ((admit (messageKey m1) s)\<lparr>outside := w\<rparr>, Inr ())"
  using assms by (simp add: messageKey_def on_message_def admit_def Let_def)

text \<open>Two messages of two users, neither with an identifier.\<close>

theorem missing_identifier_collision_witness:
  "anonymous ''u1'' \<noteq> anonymous ''u2'' \<and>
   messageKey (anonymous ''u1'') = [] \<and> messageKey (anonymous ''u2'') = [] \<and>
   act (Arrive (anonymous ''u2'')) (act (Arrive (anonymous ''u1'')) (initial w0, []))
     = (admit [] (initial w0), [anonymous ''u1'']) \<and>
   on_message calm 5 (anonymous ''u2'') (admit [] (initial w0)) = Some (admit [] (initial w0), Inr ())"
proof -
  have a: "messageId (anonymous ''u1'') = None" "messageId (anonymous ''u2'') = None"
    by (simp_all add: anonymous_def)
  have k: "messageKey (anonymous ''u1'') = []" by (simp add: anonymous_def messageKey_def)
  have b: "messageKey (anonymous ''u1'') \<notin> processingMessages (initial w0)"
    "activeProcessingCount (initial w0) < MAX_CONCURRENT_MESSAGES"
    by (simp_all add: initial_def MAX_CONCURRENT_MESSAGES_def)
  have c: "(admit [] (initial w0))\<lparr>outside := w0\<rparr> = admit [] (initial w0)"
    by (simp add: admit_def initial_def)
  have d: "anonymous ''u1'' \<noteq> anonymous ''u2''" by (simp add: anonymous_def)
  note t = missing_identifier_collision [OF a b, of "[]" calm 5 w0, unfolded k c]
  from t have t1: "messageKey (anonymous ''u2'') = []" by (rule conjunct1 [OF conjunct2])
  from t have t2: "act (Arrive (anonymous ''u1'')) (initial w0, []) = (admit [] (initial w0), [anonymous ''u1''])"
    by (rule conjunct1 [OF conjunct2 [OF conjunct2]])
  from t have t3: "act (Arrive (anonymous ''u2'')) (act (Arrive (anonymous ''u1'')) (initial w0, []))
      = act (Arrive (anonymous ''u1'')) (initial w0, [])"
    by (rule conjunct1 [OF conjunct2 [OF conjunct2 [OF conjunct2]]])
  from t have t4: "on_message calm 5 (anonymous ''u2'') (admit [] (initial w0)) = Some (admit [] (initial w0), Inr ())"
    by (rule conjunct2 [OF conjunct2 [OF conjunct2 [OF conjunct2]]])
  have t5: "act (Arrive (anonymous ''u2'')) (act (Arrive (anonymous ''u1'')) (initial w0, []))
      = (admit [] (initial w0), [anonymous ''u1''])"
    using t3 t2 by (rule trans)
  show ?thesis using d k t1 t4 t5 by (intro conjI)
qed


end
